theory Spec2Isabelle
  imports Main "HOL-Library.Word" "HOL-Library.Multiset"
begin

section \<open>SaiSwitch: boot type (fboss/agent/hw/sai/switch/SaiSwitch.cpp)\<close>

text \<open>
  The enum \<open>BootType\<close> is declared in HwSwitch.h; SaiSwitch.cpp uses only its
  enumerator \<open>COLD_BOOT\<close>. The other two enumerators are listed so that a value
  different from \<open>COLD_BOOT\<close> is representable.
\<close>

datatype BootType = UNINITIALIZED | COLD_BOOT | WARM_BOOT

text \<open>
  \<open>HwInitResult\<close>: the two fields \<open>initLocked\<close> assigns. The switch state is the
  freshly made, empty \<open>SwitchState\<close>; its contents are of type \<open>'st\<close>.
\<close>

record 'st HwInitResult =
  switchState :: "'st option"
  bootType :: BootType

text \<open>
  The members of \<open>SaiSwitch\<close> that SaiSwitch.cpp reads or writes (C++ member
  \<open>bootType_\<close> is field \<open>m_bootType\<close>, and so on). The two \<open>unique_ptr\<close> members
  are options (\<open>None\<close> is the null pointer); the manager table and the API table are
  objects of other files, of types \<open>'mt\<close> and \<open>'api\<close>. \<open>g_SaiSwitch\<close> is the file's
  global \<open>__gSaiSwitch\<close>: whether it points to this switch.
\<close>

record ('mt, 'api, 'cb) SaiSwitch =
  m_bootType :: BootType
  m_saiApiTable :: "'api option"
  m_managerTable :: "'mt option"
  m_switchId :: nat
  m_callback :: "'cb option"
  g_SaiSwitch :: bool

text \<open>
  What SaiSwitch.cpp calls in other files: the two constructors, the switch id of the
  switch manager, the empty switch state, and the five delta processors of
  \<open>stateChangedLocked\<close> taken together.
\<close>

record ('mt, 'api, 'st, 'delta) SaiEnv =
  makeSaiApiTable :: "'api"
  makeSaiManagerTable :: "'api \<Rightarrow> 'mt"
  getSwitchSaiId :: "'mt \<Rightarrow> nat"
  emptySwitchState :: "'st"
  processDelta :: "'delta \<Rightarrow> 'mt \<Rightarrow> 'mt"
  newState :: "'delta \<Rightarrow> 'st"

definition initLocked ::
  "('mt, 'api, 'st, 'delta) SaiEnv \<Rightarrow> 'cb option \<Rightarrow> ('mt, 'api, 'cb) SaiSwitch
    \<Rightarrow> 'st HwInitResult \<times> ('mt, 'api, 'cb) SaiSwitch" where
  "initLocked env callback sw =
     (let api = makeSaiApiTable env;
          mt = makeSaiManagerTable env api
      in (\<lparr>switchState = Some (emptySwitchState env), bootType = COLD_BOOT\<rparr>,
          sw\<lparr>m_bootType := COLD_BOOT,
             m_saiApiTable := Some api,
             m_managerTable := Some mt,
             m_switchId := getSwitchSaiId env mt,
             m_callback := callback,
             g_SaiSwitch := True\<rparr>))"

definition getBootTypeLocked :: "('mt, 'api, 'cb) SaiSwitch \<Rightarrow> BootType" where
  "getBootTypeLocked sw = m_bootType sw"

text \<open>
  \<open>init\<close> and \<open>getBootType\<close> take the mutex and call the locked function; for one
  caller they are the locked functions (the mutex is the subject of the next section).
\<close>

definition init ::
  "('mt, 'api, 'st, 'delta) SaiEnv \<Rightarrow> 'cb option \<Rightarrow> ('mt, 'api, 'cb) SaiSwitch
    \<Rightarrow> 'st HwInitResult \<times> ('mt, 'api, 'cb) SaiSwitch" where
  "init env callback sw = initLocked env callback sw"

definition getBootType :: "('mt, 'api, 'cb) SaiSwitch \<Rightarrow> BootType" where
  "getBootType sw = getBootTypeLocked sw"

definition stateChangedLocked ::
  "('mt, 'api, 'st, 'delta) SaiEnv \<Rightarrow> 'delta \<Rightarrow> ('mt, 'api, 'cb) SaiSwitch
    \<Rightarrow> ('mt, 'api, 'cb) SaiSwitch" where
  "stateChangedLocked env delta sw =
     sw\<lparr>m_managerTable := map_option (processDelta env delta) (m_managerTable sw)\<rparr>"

text \<open>
  The public member functions of SaiSwitch.cpp, as calls on the switch. Apart from
  \<open>init\<close> and \<open>stateChanged\<close> every locked function of the file has an empty body,
  returns a constant, or only reads the members (the packet senders, the receive
  callback, \<open>switchRunStateChanged\<close>, the table getters): none of them assigns a
  member. A call that throws or aborts ends the execution, so an execution is a
  prefix of a list of calls.
\<close>

datatype ('cb, 'delta) SaiCall =
    Init "'cb option"
  | UnregisterCallbacks
  | StateChanged 'delta
  | IsValidStateUpdate 'delta
  | AllocatePacket nat
  | SendPacketSwitchedAsync
  | SendPacketOutOfPortAsync nat
  | SendPacketSwitchedSync
  | SendPacketOutOfPortSync nat
  | UpdateStats
  | FetchL2Table
  | GracefulExit
  | ToFollyDynamic
  | InitialConfigApplied
  | ClearWarmBootCache
  | SwitchRunStateChanged nat
  | ExitFatal
  | IsPortUp nat
  | GetAndClearNeighborHit
  | ClearPortStats
  | GetPortMaxSpeed nat
  | PacketRxCallback
  | GetBootType
  | ManagerTable
  | ApiTable

fun saiCall ::
  "('mt, 'api, 'st, 'delta) SaiEnv \<Rightarrow> ('cb, 'delta) SaiCall \<Rightarrow> ('mt, 'api, 'cb) SaiSwitch
    \<Rightarrow> ('mt, 'api, 'cb) SaiSwitch" where
  "saiCall env (Init callback) sw = snd (init env callback sw)"
| "saiCall env (StateChanged delta) sw = stateChangedLocked env delta sw"
| "saiCall env call sw = sw"

fun saiCalls ::
  "('mt, 'api, 'st, 'delta) SaiEnv \<Rightarrow> ('cb, 'delta) SaiCall list \<Rightarrow> ('mt, 'api, 'cb) SaiSwitch
    \<Rightarrow> ('mt, 'api, 'cb) SaiSwitch" where
  "saiCalls env [] sw = sw"
| "saiCalls env (c # cs) sw = saiCalls env cs (saiCall env c sw)"


section \<open>SaiSwitch: the mutex of the public member functions (SaiSwitch.cpp)\<close>

text \<open>
  Every public member function of SaiSwitch.cpp has the same two statements: it constructs
  a \<open>std::lock_guard\<close> on \<open>saiSwitchMutex_\<close>, which locks the mutex (and waits while
  another thread holds it), and it calls its locked function; the guard unlocks the mutex
  when the function returns. So a thread that calls a public member function performs, in
  this order, the lock, the steps of the locked function, and the unlock.
  \<open>stateChangedLocked\<close> makes five calls, one to each of the vlan, router interface,
  neighbor, route and hostif managers; the body of any other locked function is one step.
\<close>

datatype ('cb, 'delta) SaiStep =
    LockMutex
  | UnlockMutex
  | ProcessVlanDelta 'delta
  | ProcessInterfaceDelta 'delta
  | ProcessNeighborDelta 'delta
  | ProcessRouteDelta 'delta
  | ProcessHostifDelta 'delta
  | LockedBody "('cb, 'delta) SaiCall"

fun lockedSteps :: "('cb, 'delta) SaiCall \<Rightarrow> ('cb, 'delta) SaiStep list" where
  "lockedSteps (StateChanged delta) =
     [ProcessVlanDelta delta, ProcessInterfaceDelta delta, ProcessNeighborDelta delta,
      ProcessRouteDelta delta, ProcessHostifDelta delta]"
| "lockedSteps call = [LockedBody call]"

definition publicCall :: "('cb, 'delta) SaiCall \<Rightarrow> ('cb, 'delta) SaiStep list" where
  "publicCall call = LockMutex # lockedSteps call @ [UnlockMutex]"

text \<open>
  Threads that call the switch concurrently. Thread \<open>t\<close> is the \<open>t\<close>-th program: the
  steps it has still to perform. \<open>saiSwitchMutex\<close> is the thread that holds the mutex,
  \<open>performed\<close> the steps performed so far, each with its thread, in the order they were
  performed.
\<close>

record ('cb, 'delta) SaiThreads =
  saiSwitchMutex :: "nat option"
  programs :: "('cb, 'delta) SaiStep list list"
  performed :: "(nat \<times> ('cb, 'delta) SaiStep) list"

definition startThreads :: "('cb, 'delta) SaiCall list list \<Rightarrow> ('cb, 'delta) SaiThreads" where
  "startThreads callss =
     \<lparr>saiSwitchMutex = None, programs = map (\<lambda>calls. concat (map publicCall calls)) callss,
      performed = []\<rparr>"

text \<open>
  One step of thread \<open>t\<close>. \<open>std::mutex::lock\<close> goes through only when no thread holds the
  mutex; a thread that is scheduled while it waits for the mutex, or that has finished, does
  nothing. \<open>unlock\<close> frees the mutex. The steps of a locked function do not look at the
  mutex.
\<close>

definition threadStep :: "nat \<Rightarrow> ('cb, 'delta) SaiThreads \<Rightarrow> ('cb, 'delta) SaiThreads" where
  "threadStep t c =
     (if t < length (programs c) then
        (case programs c ! t of
           [] \<Rightarrow> c
         | LockMutex # rest \<Rightarrow>
             (if saiSwitchMutex c = None
              then c\<lparr>saiSwitchMutex := Some t, programs := (programs c)[t := rest],
                     performed := performed c @ [(t, LockMutex)]\<rparr>
              else c)
         | UnlockMutex # rest \<Rightarrow>
             c\<lparr>saiSwitchMutex := None, programs := (programs c)[t := rest],
               performed := performed c @ [(t, UnlockMutex)]\<rparr>
         | step # rest \<Rightarrow>
             c\<lparr>programs := (programs c)[t := rest], performed := performed c @ [(t, step)]\<rparr>)
      else c)"

text \<open>A schedule is the list of the threads that take the next step, in order.\<close>

fun runThreads :: "nat list \<Rightarrow> ('cb, 'delta) SaiThreads \<Rightarrow> ('cb, 'delta) SaiThreads" where
  "runThreads [] c = c"
| "runThreads (t # schedule) c = runThreads schedule (threadStep t c)"

text \<open>
  A list of performed steps is exclusive from holder \<open>h\<close> when every lock finds the mutex
  free, and every step of a locked function and every unlock is performed by the thread
  that holds the mutex: between the lock and the unlock of one thread there is no step of
  another thread. \<open>holderAfter\<close> is the holder after the steps.
\<close>

fun exclusive :: "nat option \<Rightarrow> (nat \<times> ('cb, 'delta) SaiStep) list \<Rightarrow> bool" where
  "exclusive h [] = True"
| "exclusive h ((t, LockMutex) # steps) = (h = None \<and> exclusive (Some t) steps)"
| "exclusive h ((t, UnlockMutex) # steps) = (h = Some t \<and> exclusive None steps)"
| "exclusive h ((t, step) # steps) = (h = Some t \<and> exclusive h steps)"

fun holderAfter :: "nat option \<Rightarrow> (nat \<times> ('cb, 'delta) SaiStep) list \<Rightarrow> nat option" where
  "holderAfter h [] = h"
| "holderAfter h ((t, LockMutex) # steps) = holderAfter (Some t) steps"
| "holderAfter h ((t, UnlockMutex) # steps) = holderAfter None steps"
| "holderAfter h ((t, step) # steps) = holderAfter h steps"

text \<open>
  The programs of threads between two public calls, and of the thread that is inside one.
\<close>

definition bodySteps :: "('cb, 'delta) SaiStep list \<Rightarrow> bool" where
  "bodySteps steps = (\<forall>step \<in> set steps. step \<noteq> LockMutex \<and> step \<noteq> UnlockMutex)"

definition betweenCalls :: "('cb, 'delta) SaiStep list \<Rightarrow> bool" where
  "betweenCalls p = (\<exists>calls. p = concat (map publicCall calls))"

definition insideCall :: "('cb, 'delta) SaiStep list \<Rightarrow> bool" where
  "insideCall p =
     (\<exists>steps calls. bodySteps steps \<and> p = steps @ UnlockMutex # concat (map publicCall calls))"

definition threadsInv :: "('cb, 'delta) SaiThreads \<Rightarrow> bool" where
  "threadsInv c =
     (exclusive None (performed c) \<and> holderAfter None (performed c) = saiSwitchMutex c \<and>
      (\<forall>t < length (programs c).
         if saiSwitchMutex c = Some t then insideCall (programs c ! t)
         else betweenCalls (programs c ! t)))"


section \<open>AggregatePortFields (fboss/agent/state/AggregatePort.cpp)\<close>

subsection \<open>folly::dynamic\<close>

text \<open>
  The part of \<open>folly::dynamic\<close> the two functions use: 64-bit integers, strings,
  arrays and objects. An object is kept as an association list with one pair per key.
\<close>

datatype dynamic =
    DNull
  | DInt "64 word"
  | DString string
  | DArray "dynamic list"
  | DObject "(string \<times> dynamic) list"

datatype dynamic_error = TypeError | OutOfRange

text \<open>\<open>obj[key] = value\<close> on an object: replaces the value of a key that is there,
  adds the pair otherwise. On anything but an object it throws.\<close>

fun obj_assign :: "string \<Rightarrow> dynamic \<Rightarrow> (string \<times> dynamic) list \<Rightarrow> (string \<times> dynamic) list" where
  "obj_assign k v [] = [(k, v)]"
| "obj_assign k v ((k', v') # kvs) =
     (if k' = k then (k, v) # kvs else (k', v') # obj_assign k v kvs)"

fun dyn_assign :: "dynamic \<Rightarrow> string \<Rightarrow> dynamic \<Rightarrow> dynamic_error + dynamic" where
  "dyn_assign (DObject kvs) k v = Inr (DObject (obj_assign k v kvs))"
| "dyn_assign d k v = Inl TypeError"

text \<open>\<open>json[key]\<close> on a const dynamic: the value of the key; throws when the key
  is missing, or when \<open>json\<close> is no object.\<close>

fun dyn_at :: "dynamic \<Rightarrow> string \<Rightarrow> dynamic_error + dynamic" where
  "dyn_at (DObject kvs) k =
     (case map_of kvs k of None \<Rightarrow> Inl OutOfRange | Some v \<Rightarrow> Inr v)"
| "dyn_at d k = Inl TypeError"

fun getInt :: "dynamic \<Rightarrow> dynamic_error + 64 word" where
  "getInt (DInt i) = Inr i"
| "getInt d = Inl TypeError"

fun getString :: "dynamic \<Rightarrow> dynamic_error + string" where
  "getString (DString s) = Inr s"
| "getString d = Inl TypeError"

text \<open>Iterating a dynamic (the range-for of \<open>fromFollyDynamic\<close>) needs an array.\<close>

fun dyn_items :: "dynamic \<Rightarrow> dynamic_error + dynamic list" where
  "dyn_items (DArray xs) = Inr xs"
| "dyn_items d = Inl TypeError"

subsection \<open>flat_set and flat_map\<close>

text \<open>
  \<open>boost::container::flat_set\<close> is a sorted vector without duplicates, and
  \<open>flat_map\<close> one of pairs sorted by key without duplicate keys. \<open>emplace_hint\<close>
  inserts at the sorted position whatever the hint, and leaves the container as it
  is when the key is there.
\<close>

definition flat_set_inv :: "('a::linorder) list \<Rightarrow> bool" where
  "flat_set_inv xs = (sorted xs \<and> distinct xs)"

definition flat_set_emplace_hint :: "('a::linorder) \<Rightarrow> 'a list \<Rightarrow> 'a list" where
  "flat_set_emplace_hint x xs = (if x \<in> set xs then xs else insort x xs)"

definition flat_map_emplace_hint :: "('a::linorder) \<Rightarrow> 'b \<Rightarrow> ('a \<times> 'b) list \<Rightarrow> ('a \<times> 'b) list" where
  "flat_map_emplace_hint k v m = (if k \<in> fst ` set m then m else insort_key fst (k, v) m)"

subsection \<open>The fields and their serialisation\<close>

datatype Forwarding = ENABLED | DISABLED

text \<open>
  \<open>AggregatePortID\<close> and \<open>PortID\<close> are unsigned integer types declared in
  fboss/agent/types.h; their widths are the type parameters \<open>'a\<close> and \<open>'p\<close> of the
  functions below. Member \<open>id_\<close> is field \<open>agg_id\<close>, and so on.
\<close>

record ('i, 'p) AggregatePortFields =
  agg_id :: "'i"
  agg_name :: string
  agg_description :: string
  agg_ports :: "'p list"
  agg_portToFwdState :: "('p \<times> Forwarding) list"

definition kId :: string where "kId = ''id''"
definition kName :: string where "kName = ''name''"
definition kDescription :: string where "kDescription = ''description''"
definition kSubports :: string where "kSubports = ''subports''"

text \<open>The constructor: every port of \<open>ports\<close> gets the forwarding state \<open>fwd\<close>.\<close>

definition AggregatePortFields_ctor ::
  "'i \<Rightarrow> string \<Rightarrow> string \<Rightarrow> ('p::linorder) list \<Rightarrow> Forwarding \<Rightarrow> ('i, 'p) AggregatePortFields" where
  "AggregatePortFields_ctor aid name description ports fwd =
     \<lparr>agg_id = aid, agg_name = name, agg_description = description, agg_ports = ports,
      agg_portToFwdState = fold (\<lambda>port m. flat_map_emplace_hint port fwd m) ports []\<rparr>"

text \<open>\<open>static_cast<uint16_t>(v)\<close>, stored in a dynamic as a 64-bit integer.\<close>

definition dyn_of_uint16 :: "('w::len) word \<Rightarrow> dynamic" where
  "dyn_of_uint16 v = DInt (ucast (ucast v :: 16 word))"

definition toFollyDynamic :: "(('a::len) word, ('p::len) word) AggregatePortFields \<Rightarrow> dynamic" where
  "toFollyDynamic x =
     (let f0 = [];
          f1 = obj_assign kId (dyn_of_uint16 (agg_id x)) f0;
          f2 = obj_assign kName (DString (agg_name x)) f1;
          f3 = obj_assign kDescription (DString (agg_description x)) f2;
          subports = fold (\<lambda>port arr. arr @ [dyn_of_uint16 port]) (agg_ports x) [];
          f4 = obj_assign kSubports (DArray subports) f3
      in DObject f4)"

text \<open>The loop of \<open>fromFollyDynamic\<close>: every element must be an integer; it is
  narrowed to a \<open>PortID\<close> and inserted.\<close>

fun read_ports :: "dynamic list \<Rightarrow> ('p::len) word list \<Rightarrow> dynamic_error + 'p word list" where
  "read_ports [] ports = Inr ports"
| "read_ports (d # ds) ports =
     (case getInt d of
        Inl e \<Rightarrow> Inl e
      | Inr i \<Rightarrow> read_ports ds (flat_set_emplace_hint (ucast i) ports))"

text \<open>
  \<open>fromFollyDynamic\<close> calls the constructor without its last argument; \<open>fwd0\<close> is
  the default value AggregatePort.h declares for it.
\<close>

definition fromFollyDynamic ::
  "Forwarding \<Rightarrow> dynamic \<Rightarrow> dynamic_error + (('a::len) word, ('p::len) word) AggregatePortFields" where
  "fromFollyDynamic fwd0 json =
     (case dyn_at json kSubports of Inl e \<Rightarrow> Inl e | Inr sub \<Rightarrow>
      case dyn_items sub of Inl e \<Rightarrow> Inl e | Inr items \<Rightarrow>
      case read_ports items [] of Inl e \<Rightarrow> Inl e | Inr ports \<Rightarrow>
      case dyn_at json kId of Inl e \<Rightarrow> Inl e | Inr jid \<Rightarrow>
      case getInt jid of Inl e \<Rightarrow> Inl e | Inr aid \<Rightarrow>
      case dyn_at json kName of Inl e \<Rightarrow> Inl e | Inr jname \<Rightarrow>
      case getString jname of Inl e \<Rightarrow> Inl e | Inr name \<Rightarrow>
      case dyn_at json kDescription of Inl e \<Rightarrow> Inl e | Inr jdesc \<Rightarrow>
      case getString jdesc of Inl e \<Rightarrow> Inl e | Inr description \<Rightarrow>
        Inr (AggregatePortFields_ctor (ucast aid) name description ports fwd0))"


section \<open>Hardware resource tables, programming engine and warm-boot cache\<close>

text \<open>
  The member functions of the BCM tables (BcmNextHop.cpp, BcmRoute.cpp, BcmWarmBootCache.cpp,
  RefMap.h) are not among the source files; BcmNextHop.h and BcmRoute.h only declare them.
  This section follows sections 3, 4, 6 and 7 of the specification.
\<close>

text \<open>
  Modelled from the spec: the error taxonomy of section 7. No file under src/ declares
  these errors; \<open>RouteProgrammingFailed\<close> carries the route (prefix) and the reason.
\<close>

datatype 'r hw_error =
    HardwareResourceExhausted
  | HardwareRejected
  | ResourceUnderflow
  | RouteProgrammingFailed 'r "'r hw_error"
  | WarmBootCacheCorrupt

text \<open>
  Modelled from the spec: the calls of the Hardware Backend contract of section 6, each with
  its outcome (the handle a create returned, or whether the call succeeded). The vendor SDK
  is not under src/. The calls are kept in the order they were made.
\<close>

datatype ('k, 'r) hw_call =
    CreateObject 'k "nat option"
  | DestroyObject nat bool
  | CreateRoute 'r "nat list" bool
  | UpdateRoute 'r "nat list" bool
  | DestroyRoute 'r bool

text \<open>
  Modelled from the spec: the Hardware Backend of section 6, as far as the contract shows
  it: the live next-hop objects (handle and key), the programmed route entries (route and
  next-hop handles), the next handle it hands out, the sizes of its two tables, and the
  calls made so far. \<open>'k\<close> is the next-hop key, \<open>'r\<close> the route key
  (routing domain, prefix, length).
\<close>

record ('k, 'r) backend =
  hw_objects :: "(nat \<times> 'k) list"
  hw_routes :: "('r \<times> nat list) list"
  hw_next :: nat
  hw_capacity :: nat
  hw_route_capacity :: nat
  hw_calls :: "('k, 'r) hw_call list"

text \<open>
  Modelled from the spec: \<open>createHardwareObject(tableType, attributes) -> handle | error\<close>
  for the next-hop table; it fails with \<open>HardwareResourceExhausted\<close> when the table is full.
\<close>

definition createHardwareObject ::
  "'k \<Rightarrow> ('k, 'r) backend \<Rightarrow> ('r hw_error + nat) \<times> ('k, 'r) backend" where
  "createHardwareObject k b =
     (if length (hw_objects b) < hw_capacity b
      then (Inr (hw_next b),
            b\<lparr>hw_objects := hw_objects b @ [(hw_next b, k)],
              hw_next := Suc (hw_next b),
              hw_calls := hw_calls b @ [CreateObject k (Some (hw_next b))]\<rparr>)
      else (Inl HardwareResourceExhausted,
            b\<lparr>hw_calls := hw_calls b @ [CreateObject k None]\<rparr>))"

text \<open>
  Modelled from the spec: \<open>destroyHardwareObject(handle) -> success | error\<close>.
\<close>

definition destroyHardwareObject ::
  "nat \<Rightarrow> ('k, 'r) backend \<Rightarrow> ('r hw_error + unit) \<times> ('k, 'r) backend" where
  "destroyHardwareObject h b =
     (if h \<in> fst ` set (hw_objects b)
      then (Inr (),
            b\<lparr>hw_objects := filter (\<lambda>ob. fst ob \<noteq> h) (hw_objects b),
              hw_calls := hw_calls b @ [DestroyObject h True]\<rparr>)
      else (Inl HardwareRejected, b\<lparr>hw_calls := hw_calls b @ [DestroyObject h False]\<rparr>))"

text \<open>
  Modelled from the spec: \<open>createHardwareObject\<close> for the route table: a new route entry
  that references the given next-hop handles.
\<close>

definition createRouteEntry ::
  "'r \<Rightarrow> nat list \<Rightarrow> ('k, 'r) backend \<Rightarrow> ('r hw_error + unit) \<times> ('k, 'r) backend" where
  "createRouteEntry r hs b =
     (if r \<in> fst ` set (hw_routes b)
      then (Inl HardwareRejected, b\<lparr>hw_calls := hw_calls b @ [CreateRoute r hs False]\<rparr>)
      else if length (hw_routes b) < hw_route_capacity b
      then (Inr (),
            b\<lparr>hw_routes := hw_routes b @ [(r, hs)],
              hw_calls := hw_calls b @ [CreateRoute r hs True]\<rparr>)
      else (Inl HardwareResourceExhausted,
            b\<lparr>hw_calls := hw_calls b @ [CreateRoute r hs False]\<rparr>))"

text \<open>
  Modelled from the spec: \<open>updateRouteEntry(handle, nextHopHandles) -> success | error\<close>;
  a route entry is identified by its route key.
\<close>

definition updateRouteEntry ::
  "'r \<Rightarrow> nat list \<Rightarrow> ('k, 'r) backend \<Rightarrow> ('r hw_error + unit) \<times> ('k, 'r) backend" where
  "updateRouteEntry r hs b =
     (if r \<in> fst ` set (hw_routes b)
      then (Inr (),
            b\<lparr>hw_routes := map (\<lambda>rt. if fst rt = r then (r, hs) else rt) (hw_routes b),
              hw_calls := hw_calls b @ [UpdateRoute r hs True]\<rparr>)
      else (Inl HardwareRejected, b\<lparr>hw_calls := hw_calls b @ [UpdateRoute r hs False]\<rparr>))"

text \<open>
  Modelled from the spec: \<open>destroyHardwareObject\<close> for a route entry.
\<close>

definition destroyRouteEntry ::
  "'r \<Rightarrow> ('k, 'r) backend \<Rightarrow> ('r hw_error + unit) \<times> ('k, 'r) backend" where
  "destroyRouteEntry r b =
     (if r \<in> fst ` set (hw_routes b)
      then (Inr (),
            b\<lparr>hw_routes := filter (\<lambda>rt. fst rt \<noteq> r) (hw_routes b),
              hw_calls := hw_calls b @ [DestroyRoute r True]\<rparr>)
      else (Inl HardwareRejected, b\<lparr>hw_calls := hw_calls b @ [DestroyRoute r False]\<rparr>))"

text \<open>
  Modelled from the spec: an entry of the Hardware Resource Table of sections 3 and 4.1
  (\<open>BcmNextHopTable\<close> is declared in BcmNextHop.h; its member functions and the
  \<open>FlatRefMap\<close> it holds are not under src/): key, hardware handle, reference count.
\<close>

record 'k nh_entry =
  e_key :: 'k
  e_handle :: nat
  e_refs :: nat

text \<open>
  Modelled from the spec: the state machine of a Warm-Boot Cache entry (section 4.3).
\<close>

datatype claim_state = Unclaimed | Claimed | Purged

text \<open>
  Modelled from the spec: a Warm-Boot Cache entry for a next-hop object (section 3).
\<close>

record 'k cache_entry =
  c_key :: 'k
  c_handle :: nat
  c_state :: claim_state

text \<open>
  Modelled from the spec: a Warm-Boot Cache entry for a route entry (section 4.3, step 1
  enumerates every table type).
\<close>

record 'r rcache_entry =
  rc_route :: 'r
  rc_handles :: "nat list"
  rc_state :: claim_state

text \<open>
  Modelled from the spec: the state of one hardware-synchronization unit: the Next-Hop
  table, the software Route Table (route, the next-hop keys it was programmed with, the
  handles it holds), the two parts of the Warm-Boot Cache, and the Hardware Backend.
\<close>

record ('k, 'r) engine =
  nexthops :: "'k nh_entry list"
  fib :: "('r \<times> 'k list \<times> nat list) list"
  cache :: "'k cache_entry list"
  rcache :: "'r rcache_entry list"
  hw :: "('k, 'r) backend"

text \<open>
  Modelled from the spec: \<open>lookup(key) -> handle | not-found\<close> of section 4.1, with the
  state it leaves behind.
\<close>

definition lookup :: "'k \<Rightarrow> ('k, 'r) engine \<Rightarrow> nat option \<times> ('k, 'r) engine" where
  "lookup k s = (map_option e_handle (find (\<lambda>e. e_key e = k) (nexthops s)), s)"


text \<open>
  Modelled from the spec: the reference count the table records for a handle, 0 when the
  handle has no entry.
\<close>

definition handle_refcount :: "nat \<Rightarrow> ('k, 'r) engine \<Rightarrow> nat" where
  "handle_refcount h s =
     (case find (\<lambda>e. e_handle e = h) (nexthops s) of None \<Rightarrow> 0 | Some e \<Rightarrow> e_refs e)"

text \<open>
  Modelled from the spec: \<open>referenceOrCreate(key) -> handle\<close> of section 4.1, with its
  failure semantics: a failed create registers nothing and the error goes to the caller.
  (\<open>BcmNextHopTable::referenceOrEmplaceNextHop\<close> is only declared under src/.)
\<close>

definition referenceOrCreate ::
  "'k \<Rightarrow> ('k, 'r) engine \<Rightarrow> ('r hw_error + nat) \<times> ('k, 'r) engine" where
  "referenceOrCreate k s =
     (case find (\<lambda>e. e_key e = k) (nexthops s) of
        Some e \<Rightarrow>
          (Inr (e_handle e),
           s\<lparr>nexthops := map (\<lambda>e'. if e_key e' = k then e'\<lparr>e_refs := Suc (e_refs e')\<rparr> else e')
                            (nexthops s)\<rparr>)
      | None \<Rightarrow>
          (case createHardwareObject k (hw s) of
             (Inl err, b) \<Rightarrow> (Inl err, s\<lparr>hw := b\<rparr>)
           | (Inr h, b) \<Rightarrow>
               (Inr h, s\<lparr>nexthops := nexthops s @ [\<lparr>e_key = k, e_handle = h, e_refs = 1\<rparr>],
                          hw := b\<rparr>)))"

text \<open>
  Modelled from the spec: \<open>release(handle)\<close> of section 4.1: the count is decremented; at
  zero the object is destroyed through the backend and the entry removed; a handle with no
  count left is \<open>ResourceUnderflow\<close>.
\<close>

definition release ::
  "nat \<Rightarrow> ('k, 'r) engine \<Rightarrow> ('r hw_error + unit) \<times> ('k, 'r) engine" where
  "release h s =
     (case find (\<lambda>e. e_handle e = h) (nexthops s) of
        None \<Rightarrow> (Inl ResourceUnderflow, s)
      | Some e \<Rightarrow>
          if e_refs e = 0 then (Inl ResourceUnderflow, s)
          else if e_refs e - 1 = 0
          then (Inr (), s\<lparr>nexthops := filter (\<lambda>e'. e_handle e' \<noteq> h) (nexthops s),
                          hw := snd (destroyHardwareObject h (hw s))\<rparr>)
          else (Inr (), s\<lparr>nexthops := map (\<lambda>e'. if e_handle e' = h
                                                  then e'\<lparr>e_refs := e_refs e' - 1\<rparr> else e')
                                           (nexthops s)\<rparr>))"

text \<open>
  Modelled from the spec: section 4.3, step 2: a reference first checks the cache; an
  unclaimed entry with the key is claimed and adopted with its handle and count 1 (the
  caller is its one consumer), and no create is issued. An unclaimed entry for a key the
  table already holds is \<open>WarmBootCacheCorrupt\<close>.
\<close>

definition referenceOrAdopt ::
  "'k \<Rightarrow> ('k, 'r) engine \<Rightarrow> ('r hw_error + nat) \<times> ('k, 'r) engine" where
  "referenceOrAdopt k s =
     (case find (\<lambda>c. c_key c = k \<and> c_state c = Unclaimed) (cache s) of
        None \<Rightarrow> referenceOrCreate k s
      | Some c \<Rightarrow>
          if fst (lookup k s) \<noteq> None then (Inl WarmBootCacheCorrupt, s)
          else (Inr (c_handle c),
                s\<lparr>cache := map (\<lambda>c'. if c_handle c' = c_handle c
                                       then c'\<lparr>c_state := Claimed\<rparr> else c') (cache s),
                  nexthops := nexthops s @ [\<lparr>e_key = k, e_handle = c_handle c, e_refs = 1\<rparr>]\<rparr>))"

text \<open>
  Modelled from the spec: releasing the references a route held, one by one; the first
  \<open>ResourceUnderflow\<close> stops it.
\<close>

fun releaseAll :: "nat list \<Rightarrow> ('k, 'r) engine \<Rightarrow> ('r hw_error + unit) \<times> ('k, 'r) engine" where
  "releaseAll [] s = (Inr (), s)"
| "releaseAll (h # hs) s =
     (case release h s of
        (Inl e, s1) \<Rightarrow> (Inl e, s1)
      | (Inr _, s1) \<Rightarrow> releaseAll hs s1)"

text \<open>
  Modelled from the spec: section 4.2, step 1: one reference for every next hop of the
  desired set. When a reference fails, the references taken so far are released again
  (section 4.1: reference counts stay consistent, as if the call never happened).
\<close>

fun acquire :: "'k list \<Rightarrow> ('k, 'r) engine \<Rightarrow> ('r hw_error + nat list) \<times> ('k, 'r) engine" where
  "acquire [] s = (Inr [], s)"
| "acquire (k # ks) s =
     (case referenceOrAdopt k s of
        (Inl e, s1) \<Rightarrow> (Inl e, s1)
      | (Inr h, s1) \<Rightarrow>
          (case acquire ks s1 of
             (Inl e, s2) \<Rightarrow> (Inl e, snd (release h s2))
           | (Inr hs, s2) \<Rightarrow> (Inr (h # hs), s2)))"

text \<open>
  Modelled from the spec: section 4.2, step 2, for a route the Route Table does not hold: an
  unclaimed cache entry of the route is claimed, and the hardware entry is left alone when it
  already references the handles; otherwise it is updated, or created when there is none.
\<close>

definition programNewRoute ::
  "'r \<Rightarrow> 'k list \<Rightarrow> nat list \<Rightarrow> ('k, 'r) engine \<Rightarrow> ('r hw_error + unit) \<times> ('k, 'r) engine" where
  "programNewRoute r nhs hs s =
     (case find (\<lambda>c. rc_route c = r \<and> rc_state c = Unclaimed) (rcache s) of
        None \<Rightarrow>
          (case createRouteEntry r hs (hw s) of
             (Inl e, b) \<Rightarrow> (Inl e, s\<lparr>hw := b\<rparr>)
           | (Inr _, b) \<Rightarrow> (Inr (), s\<lparr>fib := fib s @ [(r, nhs, hs)], hw := b\<rparr>))
      | Some c \<Rightarrow>
          (let s1 = s\<lparr>rcache := map (\<lambda>c'. if rc_route c' = r then c'\<lparr>rc_state := Claimed\<rparr> else c')
                                    (rcache s)\<rparr>
           in if rc_handles c = hs then (Inr (), s1\<lparr>fib := fib s @ [(r, nhs, hs)]\<rparr>)
              else (case updateRouteEntry r hs (hw s) of
                      (Inl e, b) \<Rightarrow> (Inl e, s1\<lparr>hw := b\<rparr>)
                    | (Inr _, b) \<Rightarrow> (Inr (), s1\<lparr>fib := fib s @ [(r, nhs, hs)], hw := b\<rparr>))))"

text \<open>
  Modelled from the spec: the algorithm of section 4.2 for a route add or next-hop-set
  change (\<open>BcmRoute::program\<close> is only declared under src/). A failure of the backend is
  reported as \<open>RouteProgrammingFailed\<close> with the route, after the references taken for
  the route were released; the references of the previous next hops are released only
  after the new entry was programmed.
\<close>

definition programRoute ::
  "'r \<Rightarrow> 'k list \<Rightarrow> ('k, 'r) engine \<Rightarrow> ('r hw_error + unit) \<times> ('k, 'r) engine" where
  "programRoute r nhs s =
     (case find (\<lambda>f. fst f = r) (fib s) of
        None \<Rightarrow>
          (case acquire nhs s of
             (Inl e, s1) \<Rightarrow> (Inl (RouteProgrammingFailed r e), s1)
           | (Inr hs, s1) \<Rightarrow>
               (case programNewRoute r nhs hs s1 of
                  (Inl e, s2) \<Rightarrow> (Inl (RouteProgrammingFailed r e), snd (releaseAll (rev hs) s2))
                | (Inr _, s2) \<Rightarrow> (Inr (), s2)))
      | Some (r', old_nhs, old_hs) \<Rightarrow>
          if old_nhs = nhs then (Inr (), s)
          else
            (case acquire nhs s of
               (Inl e, s1) \<Rightarrow> (Inl (RouteProgrammingFailed r e), s1)
             | (Inr hs, s1) \<Rightarrow>
                 (case updateRouteEntry r hs (hw s1) of
                    (Inl e, b) \<Rightarrow>
                      (Inl (RouteProgrammingFailed r e), snd (releaseAll (rev hs) (s1\<lparr>hw := b\<rparr>)))
                  | (Inr _, b) \<Rightarrow>
                      releaseAll old_hs
                        (s1\<lparr>fib := map (\<lambda>f. if fst f = r then (r, nhs, hs) else f) (fib s1),
                            hw := b\<rparr>))))"

text \<open>
  Modelled from the spec: route removal of section 4.2: the hardware entry is removed, then
  the references are released.
\<close>

definition removeRoute ::
  "'r \<Rightarrow> ('k, 'r) engine \<Rightarrow> ('r hw_error + unit) \<times> ('k, 'r) engine" where
  "removeRoute r s =
     (case find (\<lambda>f. fst f = r) (fib s) of
        None \<Rightarrow> (Inr (), s)
      | Some (r', nhs, hs) \<Rightarrow>
          (case destroyRouteEntry r (hw s) of
             (Inl e, b) \<Rightarrow> (Inl (RouteProgrammingFailed r e), s\<lparr>hw := b\<rparr>)
           | (Inr _, b) \<Rightarrow>
               releaseAll hs (s\<lparr>fib := filter (\<lambda>f. fst f \<noteq> r) (fib s), hw := b\<rparr>)))"

text \<open>
  Modelled from the spec: the per-route differences of a State Delta.
\<close>

datatype ('k, 'r) route_change = RouteAdded 'r "'k list" | RouteRemoved 'r

text \<open>
  Modelled from the spec: applying one difference.
\<close>

fun applyChange ::
  "('k, 'r) route_change \<Rightarrow> ('k, 'r) engine \<Rightarrow> ('r hw_error + unit) \<times> ('k, 'r) engine" where
  "applyChange (RouteAdded r nhs) s = programRoute r nhs s"
| "applyChange (RouteRemoved r) s = removeRoute r s"

text \<open>
  Modelled from the spec: the propagation policy of section 7: a per-route failure is
  reported and the pass goes on; any other error stops the pass.
\<close>

fun applyDelta ::
  "('k, 'r) route_change list \<Rightarrow> ('k, 'r) engine \<Rightarrow> 'r hw_error list \<times> ('k, 'r) engine" where
  "applyDelta [] s = ([], s)"
| "applyDelta (c # cs) s =
     (case applyChange c s of
        (Inr _, s1) \<Rightarrow> applyDelta cs s1
      | (Inl (RouteProgrammingFailed r e), s1) \<Rightarrow>
          (case applyDelta cs s1 of (errs, s2) \<Rightarrow> (RouteProgrammingFailed r e # errs, s2))
      | (Inl e, s1) \<Rightarrow> ([e], s1))"

text \<open>
  Modelled from the spec: the unit after a cold boot: empty tables, empty cache, a backend
  with nothing programmed.
\<close>

definition cold_start :: "nat \<Rightarrow> nat \<Rightarrow> ('k, 'r) engine" where
  "cold_start cap rcap =
     \<lparr>nexthops = [], fib = [], cache = [], rcache = [],
      hw = \<lparr>hw_objects = [], hw_routes = [], hw_next = 0, hw_capacity = cap,
            hw_route_capacity = rcap, hw_calls = []\<rparr>\<rparr>"

text \<open>
  Modelled from the spec: section 4.3, step 1: the cache is filled from
  \<open>enumerateExisting\<close> for each table type, every entry unclaimed; the tables are empty.
\<close>

definition warm_start :: "('k, 'r) backend \<Rightarrow> ('k, 'r) engine" where
  "warm_start b =
     \<lparr>nexthops = [], fib = [],
      cache = map (\<lambda>(h, k). \<lparr>c_key = k, c_handle = h, c_state = Unclaimed\<rparr>) (hw_objects b),
      rcache = map (\<lambda>(r, hs). \<lparr>rc_route = r, rc_handles = hs, rc_state = Unclaimed\<rparr>) (hw_routes b),
      hw = b\<rparr>"

text \<open>
  Modelled from the spec: section 4.3, step 3, for route entries.
\<close>

fun purgeRoutes :: "'r rcache_entry list \<Rightarrow> ('k, 'r) engine \<Rightarrow> ('k, 'r) engine" where
  "purgeRoutes [] s = s"
| "purgeRoutes (c # cs) s =
     purgeRoutes cs
       (s\<lparr>rcache := map (\<lambda>c'. if rc_route c' = rc_route c \<and> rc_state c' = Unclaimed
                               then c'\<lparr>rc_state := Purged\<rparr> else c') (rcache s),
          hw := snd (destroyRouteEntry (rc_route c) (hw s))\<rparr>)"

text \<open>
  Modelled from the spec: section 4.3, step 3, for next-hop objects: the entry is registered
  with one reference and released through \<open>release\<close>, the path of normal operation.
\<close>

fun purgeNextHops ::
  "'k cache_entry list \<Rightarrow> ('k, 'r) engine \<Rightarrow> ('r hw_error + unit) \<times> ('k, 'r) engine" where
  "purgeNextHops [] s = (Inr (), s)"
| "purgeNextHops (c # cs) s =
     (case release (c_handle c)
             (s\<lparr>cache := map (\<lambda>c'. if c_handle c' = c_handle c \<and> c_state c' = Unclaimed
                                     then c'\<lparr>c_state := Purged\<rparr> else c') (cache s),
                nexthops := nexthops s @
                  [\<lparr>e_key = c_key c, e_handle = c_handle c, e_refs = 1\<rparr>]\<rparr>) of
        (Inl e, s1) \<Rightarrow> (Inl e, s1)
      | (Inr _, s1) \<Rightarrow> purgeNextHops cs s1)"

text \<open>
  Modelled from the spec: the cache entries still unclaimed.
\<close>

definition unclaimed :: "('k, 'r) engine \<Rightarrow> 'k cache_entry list" where
  "unclaimed s = filter (\<lambda>c. c_state c = Unclaimed) (cache s)"

text \<open>
  Modelled from the spec: the route entries of the cache still unclaimed.
\<close>

definition unclaimed_routes :: "('k, 'r) engine \<Rightarrow> 'r rcache_entry list" where
  "unclaimed_routes s = filter (\<lambda>c. rc_state c = Unclaimed) (rcache s)"

text \<open>
  Modelled from the spec: section 4.3, step 3: routes first, then next hops.
\<close>

definition purgeUnclaimed ::
  "('k, 'r) engine \<Rightarrow> ('r hw_error + unit) \<times> ('k, 'r) engine" where
  "purgeUnclaimed s =
     (let s1 = purgeRoutes (unclaimed_routes s) s in purgeNextHops (unclaimed s1) s1)"

text \<open>
  The invariant of the tables: the live hardware objects are the objects of the table
  entries and of the unclaimed cache entries, no key and no handle twice.
\<close>

definition table_pairs :: "('k, 'r) engine \<Rightarrow> (nat \<times> 'k) list" where
  "table_pairs s = map (\<lambda>e. (e_handle e, e_key e)) (nexthops s)"

definition cache_pairs :: "('k, 'r) engine \<Rightarrow> (nat \<times> 'k) list" where
  "cache_pairs s = map (\<lambda>c. (c_handle c, c_key c)) (unclaimed s)"

definition table_ok :: "('k, 'r) engine \<Rightarrow> bool" where
  "table_ok s =
     (distinct (map snd (hw_objects (hw s))) \<and>
      distinct (map fst (hw_objects (hw s))) \<and>
      list_all (\<lambda>ob. fst ob < hw_next (hw s)) (hw_objects (hw s)) \<and>
      distinct (map e_key (nexthops s)) \<and>
      list_all (\<lambda>e. 0 < e_refs e) (nexthops s) \<and>
      set (hw_objects (hw s)) = set (table_pairs s) \<union> set (cache_pairs s) \<and>
      list_all (\<lambda>c. c_handle c \<notin> set (map e_handle (nexthops s))) (unclaimed s) \<and>
      distinct (map c_handle (unclaimed s)))"

text \<open>A table with one next hop, referenced once.\<close>

definition table2 :: "(nat, nat) engine" where
  "table2 = \<lparr>nexthops = [\<lparr>e_key = 10, e_handle = 0, e_refs = 1\<rparr>], fib = [], cache = [], rcache = [],
     hw = \<lparr>hw_objects = [(0, 10)], hw_routes = [], hw_next = 1, hw_capacity = 2,
           hw_route_capacity = 2, hw_calls = [CreateObject 10 (Some 0)]\<rparr>\<rparr>"


text \<open>
  Modelled from the spec: state deltas are applied in the order they are produced.
\<close>

fun applyDeltas ::
  "('k, 'r) route_change list list \<Rightarrow> ('k, 'r) engine \<Rightarrow> ('k, 'r) engine" where
  "applyDeltas [] s = s"
| "applyDeltas (cs # css) s = applyDeltas css (snd (applyDelta cs s))"

text \<open>
  Every operation on the tables, for executions that mix them.
\<close>

datatype ('k, 'r) engine_op =
    OpReference 'k
  | OpRelease nat
  | OpLookup 'k
  | OpDelta "('k, 'r) route_change list"
  | OpPurge

fun engine_step :: "('k, 'r) engine_op \<Rightarrow> ('k, 'r) engine \<Rightarrow> ('k, 'r) engine" where
  "engine_step (OpReference k) s = snd (referenceOrAdopt k s)"
| "engine_step (OpRelease h) s = snd (release h s)"
| "engine_step (OpLookup k) s = snd (lookup k s)"
| "engine_step (OpDelta cs) s = snd (applyDelta cs s)"
| "engine_step OpPurge s = snd (purgeUnclaimed s)"

fun run :: "('k, 'r) engine_op list \<Rightarrow> ('k, 'r) engine \<Rightarrow> ('k, 'r) engine" where
  "run [] s = s"
| "run (op # ops) s = run ops (engine_step op s)"

text \<open>
  The handles the routes of the Route Table hold, with multiplicity, and the invariant of
  the engine outside a reconciliation pass. \<open>P\<close> holds the references taken by the
  operation in progress.
\<close>

definition fib_handles :: "('r \<times> 'k list \<times> nat list) list \<Rightarrow> nat list" where
  "fib_handles f = concat (map (\<lambda>(r, nhs, hs). hs) f)"

definition route_ok :: "nat multiset \<Rightarrow> ('k, 'r) engine \<Rightarrow> bool" where
  "route_ok P s =
     (table_ok s \<and> unclaimed s = [] \<and> unclaimed_routes s = [] \<and>
      hw_routes (hw s) = map (\<lambda>(r, nhs, hs). (r, hs)) (fib s) \<and>
      distinct (map fst (fib s)) \<and>
      list_all (\<lambda>e. e_refs e = count (mset (fib_handles (fib s)) + P) (e_handle e)) (nexthops s) \<and>
      set_mset (mset (fib_handles (fib s)) + P) \<subseteq> set (map e_handle (nexthops s)) \<and>
      list_all (\<lambda>(r, nhs, hs). map Some hs = map (\<lambda>k. fst (lookup k s)) nhs) (fib s))"

text \<open>
  Replaying the calls against the live handles and the programmed routes: a create brings a
  new handle to life; a destroy is refused while a route references the handle; a route is
  programmed only with live handles.
\<close>

fun hw_step ::
  "('k, 'r) hw_call \<Rightarrow> nat list \<times> ('r \<times> nat list) list
    \<Rightarrow> (nat list \<times> ('r \<times> nat list) list) option" where
  "hw_step (CreateObject k (Some h)) (live, routes) =
     (if h \<in> set live then None else Some (live @ [h], routes))"
| "hw_step (CreateObject k None) (live, routes) = Some (live, routes)"
| "hw_step (DestroyObject h ok) (live, routes) =
     (if list_ex (\<lambda>rt. h \<in> set (snd rt)) routes then None
      else Some (filter (\<lambda>h'. h' \<noteq> h) live, routes))"
| "hw_step (CreateRoute r hs ok) (live, routes) =
     (if \<not> ok then Some (live, routes)
      else if list_all (\<lambda>h. h \<in> set live) hs then Some (live, routes @ [(r, hs)])
      else None)"
| "hw_step (UpdateRoute r hs ok) (live, routes) =
     (if \<not> ok then Some (live, routes)
      else if list_all (\<lambda>h. h \<in> set live) hs
      then Some (live, map (\<lambda>rt. if fst rt = r then (r, hs) else rt) routes)
      else None)"
| "hw_step (DestroyRoute r ok) (live, routes) =
     Some (live, filter (\<lambda>rt. fst rt \<noteq> r) routes)"

fun replay ::
  "('k, 'r) hw_call list \<Rightarrow> nat list \<times> ('r \<times> nat list) list
    \<Rightarrow> (nat list \<times> ('r \<times> nat list) list) option" where
  "replay [] st = Some st"
| "replay (c # cs) st = (case hw_step c st of None \<Rightarrow> None | Some st' \<Rightarrow> replay cs st')"


definition log_ok :: "('k, 'r) engine \<Rightarrow> bool" where
  "log_ok s =
     (replay (hw_calls (hw s)) ([], []) = Some (map fst (hw_objects (hw s)), hw_routes (hw s)))"


text \<open>
  \<open>restored s s1\<close>: \<open>s1\<close> is \<open>s\<close> but for the next handle of the backend and
  the list of calls. \<open>keeps\<close>: the parts a reference or a release never touches.
\<close>

definition restored :: "('k, 'r) engine \<Rightarrow> ('k, 'r) engine \<Rightarrow> bool" where
  "restored s s1 =
     (s1 = s\<lparr>hw := (hw s)\<lparr>hw_next := hw_next (hw s1), hw_calls := hw_calls (hw s1)\<rparr>\<rparr>)"

definition keeps :: "('k, 'r) engine \<Rightarrow> ('k, 'r) engine \<Rightarrow> bool" where
  "keeps s s1 =
     (fib s1 = fib s \<and> cache s1 = cache s \<and> rcache s1 = rcache s \<and>
      hw_routes (hw s1) = hw_routes (hw s) \<and> hw_capacity (hw s1) = hw_capacity (hw s) \<and>
      hw_route_capacity (hw s1) = hw_route_capacity (hw s))"



text \<open>
  A hardware state with no key and no handle twice, as a run of the engine leaves it.
\<close>

definition backend_ok :: "('k, 'r) backend \<Rightarrow> bool" where
  "backend_ok b =
     (distinct (map snd (hw_objects b)) \<and> distinct (map fst (hw_objects b)) \<and>
      list_all (\<lambda>ob. fst ob < hw_next b) (hw_objects b))"









section \<open>BcmWarmBootCache, open-source build (fboss/agent/hw/bcm/oss/BcmWarmBootCache.cpp)\<close>

text \<open>
  Every member function this file defines has an empty body. The members of the class and
  the SDK they would act on are declared in files that are not under src/, so the state a
  call starts from (the cache together with the hardware unit) is of a type \<open>'w\<close>; a
  call returns the state it leaves, and the two maps \<open>populateAcls\<close> and
  \<open>populateAclStats\<close> take by reference are returned with it. Handles, ports and group
  ids are numbers.
\<close>

datatype MirrorDirection = INGRESS | EGRESS

definition populateAcls :: "int \<Rightarrow> 'stats \<Rightarrow> 'acls \<Rightarrow> 'w \<Rightarrow> 'stats \<times> 'acls \<times> 'w" where
  "populateAcls groupId stats acls w = (stats, acls, w)"

definition populateAclStats :: "int \<Rightarrow> 'stats \<Rightarrow> 'w \<Rightarrow> 'stats \<times> 'w" where
  "populateAclStats acl stats w = (stats, w)"











definition populateIngressQosMaps :: "'w \<Rightarrow> 'w" where
  "populateIngressQosMaps w = w"





section \<open>Properties\<close>

subsection \<open>SaiSwitch\<close>

lemma saiCall_keeps_cold:
  "m_bootType sw = COLD_BOOT \<Longrightarrow> m_bootType (saiCall env c sw) = COLD_BOOT"
  by (cases c) (simp_all add: init_def initLocked_def Let_def stateChangedLocked_def)

lemma saiCalls_keep_cold:
  "m_bootType sw = COLD_BOOT \<Longrightarrow> m_bootType (saiCalls env cs sw) = COLD_BOOT"
  by (induction cs arbitrary: sw) (simp_all add: saiCall_keeps_cold)

text \<open>
  C10. \<open>SaiSwitch::init\<close> returns an \<open>HwInitResult\<close> whose boot type is
  \<open>COLD_BOOT\<close>, whatever the switch held before, and after it every \<open>getBootType\<close>
  returns \<open>COLD_BOOT\<close>, whatever calls were made in between.
\<close>

theorem init_cold_boot:
  "bootType (fst (init env callback sw)) = COLD_BOOT \<and>
   getBootType (saiCalls env calls (snd (init env callback sw))) = COLD_BOOT"
proof -
  have "m_bootType (snd (init env callback sw)) = COLD_BOOT"
    by (simp add: init_def initLocked_def Let_def)
  then have "m_bootType (saiCalls env calls (snd (init env callback sw))) = COLD_BOOT"
    by (rule saiCalls_keep_cold)
  moreover have "bootType (fst (init env callback sw)) = COLD_BOOT"
    by (simp add: init_def initLocked_def Let_def)
  ultimately show ?thesis
    by (simp add: getBootType_def getBootTypeLocked_def)
qed

subsection \<open>AggregatePortFields\<close>

lemma ucast_uint16_round_trip: "LENGTH('a::len) \<le> 16 \<Longrightarrow> (ucast (ucast (ucast (x::'a word) :: 16 word) :: 64 word) :: 'a word) = x"
  by (rule bit_word_eqI) (auto simp: bit_ucast_iff dest: bit_imp_le_length)

lemma getInt_dyn_of_uint16: "getInt (dyn_of_uint16 v) = Inr (ucast (ucast v :: 16 word))"
  by (simp add: dyn_of_uint16_def)

lemma fold_snoc_map: "fold (\<lambda>x arr. arr @ [f x]) xs acc = acc @ map f xs"
  by (induction xs arbitrary: acc) simp_all

lemma insort_key_snoc: "\<forall>y\<in>set m. f y < f a \<Longrightarrow> insort_key f a m = m @ [a]"
  by (induction m) (auto simp: not_le[symmetric])

lemma read_ports_sorted:
  assumes "LENGTH('p::len) \<le> 16"
  shows "sorted (acc @ xs) \<Longrightarrow> distinct (acc @ xs) \<Longrightarrow>
    read_ports (map dyn_of_uint16 (xs :: 'p word list)) acc = Inr (acc @ xs)"
proof (induction xs arbitrary: acc)
  case Nil then show ?case by simp
next
  case (Cons x xs)
  have rt: "(ucast (ucast (ucast x :: 16 word) :: 64 word) :: 'p word) = x"
    using assms by (rule ucast_uint16_round_trip)
  have "\<forall>y\<in>set acc. y < x"
    using Cons.prems by (auto simp: sorted_append order_less_le)
  then have "insort x acc = acc @ [x]"
    by (rule insort_key_snoc)
  moreover have "x \<notin> set acc" using Cons.prems by auto
  ultimately have ins: "flat_set_emplace_hint x acc = acc @ [x]"
    by (simp add: flat_set_emplace_hint_def)
  have "read_ports (map dyn_of_uint16 (x # xs)) acc = read_ports (map dyn_of_uint16 xs) (acc @ [x])"
    by (simp add: getInt_dyn_of_uint16 rt ins)
  also have "\<dots> = Inr ((acc @ [x]) @ xs)"
    using Cons.prems by (intro Cons.IH) simp_all
  finally show ?case by simp
qed

lemma ctor_fwd_state:
  "sorted (map fst m @ xs) \<Longrightarrow> distinct (map fst m @ xs) \<Longrightarrow>
   fold (\<lambda>port m. flat_map_emplace_hint port fwd m) xs m = m @ map (\<lambda>p. (p, fwd)) xs"
proof (induction xs arbitrary: m)
  case Nil then show ?case by simp
next
  case (Cons x xs)
  have "\<forall>y\<in>set m. fst y < fst (x, fwd)"
    using Cons.prems by (auto simp: sorted_append order_less_le)
  then have "insort_key fst (x, fwd) m = m @ [(x, fwd)]"
    by (rule insort_key_snoc)
  moreover have "x \<notin> fst ` set m" using Cons.prems by auto
  ultimately have "flat_map_emplace_hint x fwd m = m @ [(x, fwd)]"
    by (simp add: flat_map_emplace_hint_def)
  then show ?case using Cons.prems Cons.IH[of "m @ [(x, fwd)]"] by simp
qed

text \<open>
  C9. For every \<open>AggregatePortFields\<close> value \<open>x\<close> (its subports a flat set, and the
  two id types at most 16 bits wide, the width \<open>toFollyDynamic\<close> casts them to),
  \<open>fromFollyDynamic (toFollyDynamic x)\<close> returns a value with the id, name, description
  and subports of \<open>x\<close>, in which every subport has the default forwarding state; and
  the forwarding states of \<open>x\<close> are not serialised: \<open>toFollyDynamic\<close> gives the same
  dynamic whatever they are.
\<close>

theorem aggregate_port_round_trip:
  fixes x :: "(('a::len) word, ('p::len) word) AggregatePortFields"
  assumes "LENGTH('a) \<le> 16" and "LENGTH('p) \<le> 16" and "flat_set_inv (agg_ports x)"
  shows "fromFollyDynamic fwd0 (toFollyDynamic x) =
           Inr (x\<lparr>agg_portToFwdState := map (\<lambda>p. (p, fwd0)) (agg_ports x)\<rparr>) \<and>
         toFollyDynamic (x\<lparr>agg_portToFwdState := m\<rparr>) = toFollyDynamic x"
proof -
  have ports: "read_ports (map dyn_of_uint16 (agg_ports x)) [] = Inr (agg_ports x)"
    using read_ports_sorted[OF assms(2), of "[]" "agg_ports x"] assms(3)
    by (simp add: flat_set_inv_def)
  have fwd: "fold (\<lambda>port m. flat_map_emplace_hint port fwd0 m) (agg_ports x) [] =
      map (\<lambda>p. (p, fwd0)) (agg_ports x)"
    using ctor_fwd_state[of "[]" "agg_ports x" fwd0] assms(3) by (simp add: flat_set_inv_def)
  have "fromFollyDynamic fwd0 (toFollyDynamic x) =
           Inr (x\<lparr>agg_portToFwdState := map (\<lambda>p. (p, fwd0)) (agg_ports x)\<rparr>)"
    by (simp add: fromFollyDynamic_def toFollyDynamic_def Let_def kId_def kName_def
        kDescription_def kSubports_def fold_snoc_map ports fwd getInt_dyn_of_uint16
        AggregatePortFields_ctor_def ucast_uint16_round_trip[OF assms(1)])
  moreover have "toFollyDynamic (x\<lparr>agg_portToFwdState := m\<rparr>) = toFollyDynamic x"
    by (simp add: toFollyDynamic_def)
  ultimately show ?thesis by simp
qed

theorem aggregate_port_round_trip_witness:
  "fromFollyDynamic DISABLED (toFollyDynamic
      \<lparr>agg_id = 7 :: 16 word, agg_name = ''po1'', agg_description = ''uplink'',
       agg_ports = [1, 2, 5 :: 16 word],
       agg_portToFwdState = [(1, ENABLED), (2, DISABLED), (5, ENABLED)]\<rparr>) =
     Inr \<lparr>agg_id = 7 :: 16 word, agg_name = ''po1'', agg_description = ''uplink'',
       agg_ports = [1, 2, 5 :: 16 word],
       agg_portToFwdState = [(1, DISABLED), (2, DISABLED), (5, DISABLED)]\<rparr> \<and>
   toFollyDynamic
      \<lparr>agg_id = 7 :: 16 word, agg_name = ''po1'', agg_description = ''uplink'',
       agg_ports = [1, 2, 5 :: 16 word], agg_portToFwdState = []\<rparr> =
   toFollyDynamic
      \<lparr>agg_id = 7 :: 16 word, agg_name = ''po1'', agg_description = ''uplink'',
       agg_ports = [1, 2, 5 :: 16 word],
       agg_portToFwdState = [(1, ENABLED), (2, DISABLED), (5, ENABLED)]\<rparr>"
  using aggregate_port_round_trip[of
      "\<lparr>agg_id = 7 :: 16 word, agg_name = ''po1'', agg_description = ''uplink'',
       agg_ports = [1, 2, 5 :: 16 word],
       agg_portToFwdState = [(1, ENABLED), (2, DISABLED), (5, ENABLED)]\<rparr>" DISABLED "[]"]
  by (simp add: flat_set_inv_def)

subsection \<open>SaiSwitch: mutual exclusion\<close>

lemma exclusive_snoc:
  "exclusive h (steps @ [(t, step)]) =
     (exclusive h steps \<and>
      (if step = LockMutex then holderAfter h steps = None else holderAfter h steps = Some t))"
  by (induction h steps rule: exclusive.induct) (cases step; simp)+

lemma holderAfter_snoc:
  "holderAfter h (steps @ [(t, step)]) =
     (if step = LockMutex then Some t else if step = UnlockMutex then None
      else holderAfter h steps)"
  by (induction h steps rule: holderAfter.induct) (cases step; simp)+

lemma bodySteps_lockedSteps: "bodySteps (lockedSteps call)"
  by (cases call) (simp_all add: bodySteps_def)

lemma betweenCalls_cases:
  assumes "betweenCalls p"
  shows "p = [] \<or> (\<exists>rest. p = LockMutex # rest \<and> insideCall rest)"
proof -
  from assms obtain calls where p: "p = concat (map publicCall calls)"
    by (auto simp: betweenCalls_def)
  show ?thesis
  proof (cases calls)
    case Nil
    then show ?thesis using p by simp
  next
    case (Cons call calls')
    then have "p = LockMutex # (lockedSteps call @ UnlockMutex # concat (map publicCall calls'))"
      using p by (simp add: publicCall_def)
    moreover have "insideCall (lockedSteps call @ UnlockMutex # concat (map publicCall calls'))"
      unfolding insideCall_def using bodySteps_lockedSteps by blast
    ultimately show ?thesis by blast
  qed
qed

lemma insideCall_cases:
  assumes "insideCall p"
  shows "(\<exists>rest. p = UnlockMutex # rest \<and> betweenCalls rest) \<or>
         (\<exists>step rest. p = step # rest \<and> step \<noteq> LockMutex \<and> step \<noteq> UnlockMutex \<and>
            insideCall rest)"
proof -
  from assms obtain steps calls where
    b: "bodySteps steps" and p: "p = steps @ UnlockMutex # concat (map publicCall calls)"
    by (auto simp: insideCall_def)
  show ?thesis
  proof (cases steps)
    case Nil
    then show ?thesis using p by (auto simp: betweenCalls_def)
  next
    case (Cons step steps')
    then have "bodySteps steps'" "step \<noteq> LockMutex" "step \<noteq> UnlockMutex"
      using b by (simp_all add: bodySteps_def)
    moreover have "p = step # (steps' @ UnlockMutex # concat (map publicCall calls))"
      using p Cons by simp
    ultimately show ?thesis unfolding insideCall_def by blast
  qed
qed

lemma threadsInv_step:
  assumes inv: "threadsInv c"
  shows "threadsInv (threadStep t c)"
proof (cases "t < length (programs c)")
  case False
  then show ?thesis using inv by (simp add: threadStep_def)
next
  case t: True
  have ex: "exclusive None (performed c)"
    and ho: "holderAfter None (performed c) = saiSwitchMutex c"
    and pr: "\<And>u. u < length (programs c) \<Longrightarrow>
        (if saiSwitchMutex c = Some u then insideCall (programs c ! u)
         else betweenCalls (programs c ! u))"
    using inv by (simp_all add: threadsInv_def)
  have others: "\<forall>u<length (programs c). t \<noteq> u \<longrightarrow> betweenCalls (programs c ! u)"
    if "saiSwitchMutex c = Some t \<or> saiSwitchMutex c = None"
  proof (intro allI impI)
    fix u assume u: "u < length (programs c)" "t \<noteq> u"
    then have "saiSwitchMutex c \<noteq> Some u" using that by auto
    then show "betweenCalls (programs c ! u)" using pr[OF u(1)] by simp
  qed
  show ?thesis
  proof (cases "saiSwitchMutex c = Some t")
    case True
    note oth = others[OF disjI1[OF True]]
    from True have "insideCall (programs c ! t)" using pr[OF t] by simp
    then consider
      (unlock) rest where "programs c ! t = UnlockMutex # rest" "betweenCalls rest"
      | (body) step rest where "programs c ! t = step # rest" "step \<noteq> LockMutex"
          "step \<noteq> UnlockMutex" "insideCall rest"
      using insideCall_cases by blast
    then show ?thesis
    proof cases
      case unlock
      have s: "threadStep t c =
          c\<lparr>saiSwitchMutex := None, programs := (programs c)[t := rest],
            performed := performed c @ [(t, UnlockMutex)]\<rparr>"
        using t unlock by (simp add: threadStep_def)
      have "betweenCalls ((programs c)[t := rest] ! u)" if u: "u < length (programs c)" for u
        using oth u unlock(2) by (cases "u = t") simp_all
      then show ?thesis
        unfolding s threadsInv_def using ex ho True
        by (simp add: exclusive_snoc holderAfter_snoc)
    next
      case body
      have s: "threadStep t c =
          c\<lparr>programs := (programs c)[t := rest], performed := performed c @ [(t, step)]\<rparr>"
        using t body by (cases step) (simp_all add: threadStep_def)
      show ?thesis
        unfolding s threadsInv_def using ex ho True body oth
        by (simp add: exclusive_snoc holderAfter_snoc)
    qed
  next
    case False
    then have "betweenCalls (programs c ! t)" using pr[OF t] by simp
    then consider (finished) "programs c ! t = []"
      | (lock) rest where "programs c ! t = LockMutex # rest" "insideCall rest"
      using betweenCalls_cases by blast
    then show ?thesis
    proof cases
      case finished
      then show ?thesis using inv t by (simp add: threadStep_def)
    next
      case lock
      show ?thesis
      proof (cases "saiSwitchMutex c = None")
        case held: False
        then obtain y where "saiSwitchMutex c = Some y" by auto
        then have "threadStep t c = c" using t lock by (simp add: threadStep_def)
        then show ?thesis using inv by simp
      next
        case free: True
        note oth = others[OF disjI2[OF free]]
        have s: "threadStep t c =
            c\<lparr>saiSwitchMutex := Some t, programs := (programs c)[t := rest],
              performed := performed c @ [(t, LockMutex)]\<rparr>"
          using t lock free by (simp add: threadStep_def)
        show ?thesis
          unfolding s threadsInv_def using ex ho free lock oth
          by (simp add: exclusive_snoc holderAfter_snoc)
      qed
    qed
  qed
qed

lemma threadsInv_run: "threadsInv c \<Longrightarrow> threadsInv (runThreads schedule c)"
  by (induction schedule arbitrary: c) (simp_all add: threadsInv_step)

lemma threadsInv_start: "threadsInv (startThreads callss)"
  by (auto simp: threadsInv_def startThreads_def betweenCalls_def)

lemma exclusive_append:
  "exclusive h (xs @ ys) = (exclusive h xs \<and> exclusive (holderAfter h xs) ys)"
  by (induction h xs rule: exclusive.induct) simp_all

lemma exclusive_two:
  assumes "exclusive h ((t, e) # (t', e') # ys)" "t \<noteq> t'"
  shows "e = UnlockMutex \<and> e' = LockMutex"
  using assms by (cases e; cases e'; simp)

text \<open>
  C8. For any number of threads, each making any list of calls of the public member
  functions of one \<open>SaiSwitch\<close>, and any schedule: the performed steps are exclusive (every
  lock finds the mutex free; every step of a locked function, so each of the five delta
  processors of \<open>stateChanged\<close>, and every unlock is performed by the thread that holds
  the mutex), the holder the steps leave is the value of the mutex, and wherever two
  consecutive steps are of different threads the first is an unlock and the second a lock:
  the steps of two locked functions are never interleaved.
\<close>

theorem public_calls_exclusive:
  "exclusive None (performed (runThreads schedule (startThreads callss))) \<and>
   holderAfter None (performed (runThreads schedule (startThreads callss))) =
     saiSwitchMutex (runThreads schedule (startThreads callss)) \<and>
   (performed (runThreads schedule (startThreads callss)) = before @ (t, e) # (t', e') # after \<and>
    t \<noteq> t' \<longrightarrow> e = UnlockMutex \<and> e' = LockMutex)"
proof -
  let ?c = "runThreads schedule (startThreads callss)"
  have inv: "threadsInv ?c" using threadsInv_start by (rule threadsInv_run)
  then have ex: "exclusive None (performed ?c)"
    and ho: "holderAfter None (performed ?c) = saiSwitchMutex ?c"
    by (simp_all add: threadsInv_def)
  have "e = UnlockMutex \<and> e' = LockMutex"
    if p: "performed ?c = before @ (t, e) # (t', e') # after" and n: "t \<noteq> t'"
  proof -
    have "exclusive (holderAfter None before) ((t, e) # (t', e') # after)"
      using ex unfolding p by (simp add: exclusive_append)
    then show ?thesis using n by (rule exclusive_two)
  qed
  then show ?thesis using ex ho by blast
qed

theorem public_calls_exclusive_witness:
  "performed (runThreads [0, 0, 1, 0, 1, 0, 0, 0, 0, 1, 1, 0, 1]
      (startThreads [[StateChanged (7 :: nat)], [ClearWarmBootCache :: (unit, nat) SaiCall]])) =
     [(0, LockMutex), (0, ProcessVlanDelta 7), (0, ProcessInterfaceDelta 7),
      (0, ProcessNeighborDelta 7), (0, ProcessRouteDelta 7), (0, ProcessHostifDelta 7)] @
     (0, UnlockMutex) # (1, LockMutex) # [(1, LockedBody ClearWarmBootCache), (1, UnlockMutex)] \<and>
   (0 :: nat) \<noteq> 1 \<and>
   exclusive None (performed (runThreads [0, 0, 1, 0, 1, 0, 0, 0, 0, 1, 1, 0, 1]
      (startThreads [[StateChanged (7 :: nat)], [ClearWarmBootCache :: (unit, nat) SaiCall]])))"
proof -
  let ?c = "runThreads [0, 0, 1, 0, 1, 0, 0, 0, 0, 1, 1, 0, 1]
      (startThreads [[StateChanged (7 :: nat)], [ClearWarmBootCache :: (unit, nat) SaiCall]])"
  have p: "performed ?c =
     [(0, LockMutex), (0, ProcessVlanDelta 7), (0, ProcessInterfaceDelta 7),
      (0, ProcessNeighborDelta 7), (0, ProcessRouteDelta 7), (0, ProcessHostifDelta 7)] @
     (0, UnlockMutex) # (1, LockMutex) # [(1, LockedBody ClearWarmBootCache), (1, UnlockMutex)]"
    by (simp add: startThreads_def publicCall_def threadStep_def)
  have n: "(0 :: nat) \<noteq> 1" by simp
  note th = public_calls_exclusive[of "[0, 0, 1, 0, 1, 0, 0, 0, 0, 1, 1, 0, 1]"
      "[[StateChanged (7 :: nat)], [ClearWarmBootCache :: (unit, nat) SaiCall]]"
      "[(0, LockMutex), (0, ProcessVlanDelta 7), (0, ProcessInterfaceDelta 7),
        (0, ProcessNeighborDelta 7), (0, ProcessRouteDelta 7), (0, ProcessHostifDelta 7)]"
      0 UnlockMutex 1 LockMutex "[(1, LockedBody ClearWarmBootCache), (1, UnlockMutex)]"]
  have e: "exclusive None (performed ?c)" using th by (rule conjunct1)
  show ?thesis using p n e by (intro conjI)
qed

subsection \<open>Tables, engine and cache\<close>

lemma find_None_iff2: "(find P xs = None) = (\<forall>x\<in>set xs. \<not> P x)"
  by (induction xs) auto

lemma find_SomeD: "find P xs = Some x \<Longrightarrow> x \<in> set xs \<and> P x"
  by (induction xs) (auto split: if_splits)

lemma table_ok_handles_distinct:
  assumes "table_ok s"
  shows "distinct (map e_handle (nexthops s))"
proof -
  have d: "distinct (map fst (hw_objects (hw s)))" and k: "distinct (map e_key (nexthops s))"
    and sub: "set (table_pairs s) \<subseteq> set (hw_objects (hw s))"
    using assms by (auto simp: table_ok_def)
  have inj: "inj_on e_handle (set (nexthops s))"
  proof (rule inj_onI)
    fix a b assume a: "a \<in> set (nexthops s)" and b: "b \<in> set (nexthops s)"
      and eq: "e_handle a = e_handle b"
    have "(e_handle a, e_key a) \<in> set (hw_objects (hw s))" "(e_handle b, e_key b) \<in> set (hw_objects (hw s))"
      using a b sub by (auto simp: table_pairs_def)
    then have "e_key a = e_key b" using d eq
      by (metis eq_key_imp_eq_value)
    then show "a = b" using k a b by (meson distinct_map inj_onD)
  qed
  have "distinct (nexthops s)" using k by (simp add: distinct_map)
  then show ?thesis using inj by (simp add: distinct_map)
qed

lemma upd_refs_key [simp]:
  "e_key \<circ> (\<lambda>e. if P e then e\<lparr>e_refs := g e\<rparr> else e) = e_key"
  by (auto simp: fun_eq_iff)

lemma upd_refs_handle [simp]:
  "e_handle \<circ> (\<lambda>e. if P e then e\<lparr>e_refs := g e\<rparr> else e) = e_handle"
  by (auto simp: fun_eq_iff)

lemma upd_refs_pair [simp]:
  "(\<lambda>e. (e_handle e, e_key e)) \<circ> (\<lambda>e. if P e then e\<lparr>e_refs := g e\<rparr> else e) =
   (\<lambda>e. (e_handle e, e_key e))"
  by (auto simp: fun_eq_iff)

lemma list_all_upd_refs:
  "list_all (\<lambda>e. 0 < e_refs e) xs \<Longrightarrow> (\<And>e. e \<in> set xs \<Longrightarrow> P e \<Longrightarrow> 0 < g e) \<Longrightarrow>
   list_all (\<lambda>e. 0 < e_refs e) (map (\<lambda>e. if P e then e\<lparr>e_refs := g e\<rparr> else e) xs)"
  by (induction xs) auto

lemma table_ok_cong:
  "nexthops s' = nexthops s \<Longrightarrow> cache s' = cache s \<Longrightarrow>
   hw_objects (hw s') = hw_objects (hw s) \<Longrightarrow> hw_next (hw s') = hw_next (hw s) \<Longrightarrow>
   table_ok s' = table_ok s"
  by (simp add: table_ok_def table_pairs_def cache_pairs_def unclaimed_def)

lemma referenceOrCreate_ok:
  assumes "table_ok s" and "list_all (\<lambda>c. c_key c \<noteq> k) (unclaimed s)"
  shows "table_ok (snd (referenceOrCreate k s))"
proof (cases "find (\<lambda>e. e_key e = k) (nexthops s)")
  case (Some e)
  then show ?thesis using assms(1)
    by (simp add: referenceOrCreate_def table_ok_def table_pairs_def cache_pairs_def unclaimed_def
        list_all_upd_refs del: set_map)
next
  case None
  then have nk: "\<forall>e\<in>set (nexthops s). e_key e \<noteq> k" by (simp add: find_None_iff2)
  have fresh: "\<forall>ob\<in>set (hw_objects (hw s)). fst ob < hw_next (hw s)"
    using assms(1) by (simp add: table_ok_def list_all_iff)
  have nokey: "k \<notin> snd ` set (hw_objects (hw s))"
    using assms nk by (auto simp: table_ok_def table_pairs_def cache_pairs_def list_all_iff)
  show ?thesis
  proof (cases "length (hw_objects (hw s)) < hw_capacity (hw s)")
    case True
    have nh: "hw_next (hw s) \<notin> fst ` set (hw_objects (hw s))" using fresh by auto
    have nh2: "hw_next (hw s) \<notin> e_handle ` set (nexthops s)"
      using assms(1) nh by (force simp: table_ok_def table_pairs_def)
    have nh3: "\<forall>c\<in>set (unclaimed s). c_handle c \<noteq> hw_next (hw s)"
      using assms(1) nh by (force simp: table_ok_def cache_pairs_def)
    show ?thesis using None True assms(1) nk fresh nokey nh nh2 nh3
      by (auto simp: referenceOrCreate_def createHardwareObject_def table_ok_def table_pairs_def
          cache_pairs_def unclaimed_def list_all_iff less_Suc_eq)
  next
    case False
    have "table_ok (s\<lparr>hw := (hw s)\<lparr>hw_calls := hw_calls (hw s) @ [CreateObject k None]\<rparr>\<rparr>) =
        table_ok s"
      by (rule table_ok_cong) simp_all
    then show ?thesis using False None assms(1)
      by (simp add: referenceOrCreate_def createHardwareObject_def)
  qed
qed

lemma unclaimed_after_claim:
  "filter (\<lambda>c. c_state c = Unclaimed)
     (map (\<lambda>c'. if c_handle c' = h then c'\<lparr>c_state := Claimed\<rparr> else c') cs) =
   filter (\<lambda>c'. c_handle c' \<noteq> h) (filter (\<lambda>c. c_state c = Unclaimed) cs)"
  by (induction cs) simp_all

lemma referenceOrAdopt_ok:
  assumes "table_ok s"
  shows "table_ok (snd (referenceOrAdopt k s))"
proof (cases "find (\<lambda>c. c_key c = k \<and> c_state c = Unclaimed) (cache s)")
  case None
  then have "list_all (\<lambda>c. c_key c \<noteq> k) (unclaimed s)"
    by (auto simp: find_None_iff2 unclaimed_def list_all_iff)
  then show ?thesis using None assms by (simp add: referenceOrAdopt_def referenceOrCreate_ok)
next
  case (Some c)
  then have c: "c \<in> set (unclaimed s)" "c_key c = k"
    by (auto dest: find_SomeD simp: unclaimed_def)
  show ?thesis
  proof (cases "fst (lookup k s)")
    case (Some h)
    then show ?thesis using \<open>find _ (cache s) = Some c\<close> assms by (simp add: referenceOrAdopt_def)
  next
    case None
    then have nk: "k \<notin> set (map e_key (nexthops s))"
      by (auto simp: lookup_def find_None_iff2)
    let ?s' = "s\<lparr>cache := map (\<lambda>c'. if c_handle c' = c_handle c
                                       then c'\<lparr>c_state := Claimed\<rparr> else c') (cache s),
                  nexthops := nexthops s @ [\<lparr>e_key = k, e_handle = c_handle c, e_refs = 1\<rparr>]\<rparr>"
    have hwset: "set (hw_objects (hw s)) = set (table_pairs s) \<union> set (cache_pairs s)"
      and dh: "distinct (map fst (hw_objects (hw s)))"
      and nt: "\<forall>c'\<in>set (unclaimed s). c_handle c' \<notin> set (map e_handle (nexthops s))"
      using assms by (simp_all add: table_ok_def list_all_iff)
    have inhw: "(c_handle c, k) \<in> set (hw_objects (hw s))"
      using c hwset by (force simp: cache_pairs_def)
    have same: "c_key c' = k" if "c' \<in> set (unclaimed s)" "c_handle c' = c_handle c" for c'
    proof -
      have "(c_handle c', c_key c') \<in> set (cache_pairs s)"
        using that(1) by (simp add: cache_pairs_def)
      then have "(c_handle c, c_key c') \<in> set (hw_objects (hw s))"
        using that(2) hwset by simp
      then show ?thesis using inhw dh by (metis eq_key_imp_eq_value)
    qed
    have un: "unclaimed ?s' = filter (\<lambda>c'. c_handle c' \<noteq> c_handle c) (unclaimed s)"
      by (simp add: unclaimed_def unclaimed_after_claim)
    have cp: "set (cache_pairs ?s') = set (cache_pairs s) - {(c_handle c, k)}"
    proof (rule set_eqI, rule iffI)
      fix p assume "p \<in> set (cache_pairs ?s')"
      then obtain c' where c': "c' \<in> set (unclaimed s)" "c_handle c' \<noteq> c_handle c"
          "p = (c_handle c', c_key c')"
        unfolding cache_pairs_def un by auto
      then show "p \<in> set (cache_pairs s) - {(c_handle c, k)}"
        by (simp add: cache_pairs_def)
    next
      fix p assume p: "p \<in> set (cache_pairs s) - {(c_handle c, k)}"
      then obtain c' where c': "c' \<in> set (unclaimed s)" "p = (c_handle c', c_key c')"
        by (auto simp: cache_pairs_def)
      have "c_handle c' \<noteq> c_handle c"
      proof
        assume "c_handle c' = c_handle c"
        then have "p = (c_handle c, k)" using same[OF c'(1)] c'(2) by simp
        then show False using p by simp
      qed
      then show "p \<in> set (cache_pairs ?s')"
        unfolding cache_pairs_def un using c' by simp
    qed
    have tp: "set (table_pairs ?s') = insert (c_handle c, k) (set (table_pairs s))"
      by (simp add: table_pairs_def)
    have 1: "set (hw_objects (hw ?s')) = set (table_pairs ?s') \<union> set (cache_pairs ?s')"
    proof -
      have "set (hw_objects (hw ?s')) = set (table_pairs s) \<union> set (cache_pairs s)"
        using hwset by simp
      also have "\<dots> = insert (c_handle c, k) (set (table_pairs s)) \<union>
          (set (cache_pairs s) - {(c_handle c, k)})"
        using inhw hwset by blast
      finally show ?thesis unfolding cp tp .
    qed
    have 2: "distinct (map e_key (nexthops ?s'))"
      using assms nk by (simp add: table_ok_def)
    have 3: "list_all (\<lambda>e. 0 < e_refs e) (nexthops ?s')"
      using assms by (simp add: table_ok_def)
    have 4: "list_all (\<lambda>c'. c_handle c' \<notin> set (map e_handle (nexthops ?s'))) (unclaimed ?s')"
      unfolding un using nt by (simp add: list_all_iff)
    have 5: "distinct (map snd (hw_objects (hw ?s')))" "distinct (map fst (hw_objects (hw ?s')))"
      "list_all (\<lambda>ob. fst ob < hw_next (hw ?s')) (hw_objects (hw ?s'))"
      using assms by (simp_all add: table_ok_def)
    have 6: "distinct (map c_handle (unclaimed ?s'))"
      unfolding un using assms by (simp add: table_ok_def distinct_map_filter)
    have "table_ok ?s'"
      unfolding table_ok_def by (intro conjI 1 2 3 4 5 6)
    then show ?thesis using None \<open>find _ (cache s) = Some c\<close> by (simp add: referenceOrAdopt_def)
  qed
qed

lemma destroy_objects:
  "hw_objects (snd (destroyHardwareObject h b)) = filter (\<lambda>ob. fst ob \<noteq> h) (hw_objects b)"
proof (cases "h \<in> fst ` set (hw_objects b)")
  case True
  then show ?thesis by (simp add: destroyHardwareObject_def)
next
  case False
  then have "filter (\<lambda>ob. fst ob \<noteq> h) (hw_objects b) = hw_objects b"
    by (auto simp: filter_id_conv)
  then show ?thesis using False by (simp add: destroyHardwareObject_def)
qed

lemma destroy_other [simp]:
  "hw_next (snd (destroyHardwareObject h b)) = hw_next b"
  "hw_routes (snd (destroyHardwareObject h b)) = hw_routes b"
  "hw_capacity (snd (destroyHardwareObject h b)) = hw_capacity b"
  "hw_route_capacity (snd (destroyHardwareObject h b)) = hw_route_capacity b"
  by (simp_all add: destroyHardwareObject_def)

lemma release_ok:
  assumes "table_ok s"
  shows "table_ok (snd (release h s))"
proof (cases "find (\<lambda>e. e_handle e = h) (nexthops s)")
  case None
  then show ?thesis using assms by (simp add: release_def)
next
  case (Some e)
  then have e: "e \<in> set (nexthops s)" "e_handle e = h" by (auto dest: find_SomeD)
  consider "e_refs e = 0" | "e_refs e = 1" | "1 < e_refs e" by linarith
  then show ?thesis
  proof cases
    case 1
    then show ?thesis using Some assms by (simp add: release_def)
  next
    case 3
    then have "snd (release h s) =
        s\<lparr>nexthops := map (\<lambda>e'. if e_handle e' = h then e'\<lparr>e_refs := e_refs e' - 1\<rparr> else e')
                           (nexthops s)\<rparr>"
      using Some by (simp add: release_def)
    moreover have "list_all (\<lambda>e. 0 < e_refs e)
        (map (\<lambda>e'. if e_handle e' = h then e'\<lparr>e_refs := e_refs e' - 1\<rparr> else e') (nexthops s))"
    proof -
      have dh: "distinct (map e_handle (nexthops s))"
        using assms by (rule table_ok_handles_distinct)
      have "e' = e" if "e' \<in> set (nexthops s)" "e_handle e' = h" for e'
        using that e dh by (metis distinct_map inj_onD)
      then show ?thesis using 3 assms
        by (auto simp: list_all_iff table_ok_def)
    qed
    ultimately show ?thesis using assms
      by (simp add: table_ok_def table_pairs_def cache_pairs_def unclaimed_def del: set_map)
  next
    case 2
    let ?s' = "s\<lparr>nexthops := filter (\<lambda>e'. e_handle e' \<noteq> h) (nexthops s),
                 hw := snd (destroyHardwareObject h (hw s))\<rparr>"
    have s': "snd (release h s) = ?s'" using Some 2 by (simp add: release_def)
    have hwset: "set (hw_objects (hw s)) = set (table_pairs s) \<union> set (cache_pairs s)"
      and nt: "\<forall>c'\<in>set (unclaimed s). c_handle c' \<notin> set (map e_handle (nexthops s))"
      using assms by (simp_all add: table_ok_def list_all_iff)
    have tp: "table_pairs ?s' = filter (\<lambda>ob. fst ob \<noteq> h) (table_pairs s)"
      by (simp add: table_pairs_def filter_map comp_def)
    have cp: "cache_pairs ?s' = cache_pairs s"
      by (simp add: cache_pairs_def unclaimed_def)
    have cph: "\<forall>p\<in>set (cache_pairs s). fst p \<noteq> h"
      using nt e by (auto simp: cache_pairs_def)
    have 1: "set (hw_objects (hw ?s')) = set (table_pairs ?s') \<union> set (cache_pairs ?s')"
      unfolding tp cp using hwset cph by (auto simp: destroy_objects)
    have 2: "distinct (map e_key (nexthops ?s'))"
      using assms by (simp add: table_ok_def distinct_map_filter)
    have 3: "list_all (\<lambda>e. 0 < e_refs e) (nexthops ?s')"
      using assms by (simp add: table_ok_def list_all_iff)
    have 4: "list_all (\<lambda>c'. c_handle c' \<notin> set (map e_handle (nexthops ?s'))) (unclaimed ?s')"
      using nt by (auto simp: list_all_iff unclaimed_def)
    have 5: "distinct (map snd (hw_objects (hw ?s')))" "distinct (map fst (hw_objects (hw ?s')))"
      "list_all (\<lambda>ob. fst ob < hw_next (hw ?s')) (hw_objects (hw ?s'))"
      using assms by (simp_all add: table_ok_def destroy_objects distinct_map_filter list_all_iff)
    have 6: "distinct (map c_handle (unclaimed ?s'))"
      using assms by (simp add: table_ok_def unclaimed_def)
    have "table_ok ?s'"
      unfolding table_ok_def by (intro conjI 1 2 3 4 5 6)
    then show ?thesis using s' by simp
  qed
qed

text \<open>one live object per key\<close>
lemma distinct_map_filter_le1:
  "distinct (map f xs) \<Longrightarrow> length (filter (\<lambda>x. f x = K) xs) \<le> 1"
proof (induction xs)
  case Nil
  then show ?case by simp
next
  case (Cons a xs)
  show ?case
  proof (cases "f a = K")
    case True
    then have "K \<notin> f ` set xs" using Cons.prems by auto
    then have "filter (\<lambda>x. f x = K) xs = []"
      by (auto simp: filter_empty_conv)
    then show ?thesis using True by simp
  next
    case False
    then show ?thesis using Cons by simp
  qed
qed

lemma table_ok_one_object:
  assumes "table_ok s"
  shows "length (filter (\<lambda>ob. snd ob = K) (hw_objects (hw s))) \<le> 1"
proof -
  have "distinct (map snd (hw_objects (hw s)))" using assms by (simp add: table_ok_def)
  then show ?thesis by (rule distinct_map_filter_le1)
qed

lemma find_map_upd:
  "find P (map (\<lambda>e. if Q e then g e else e) xs) =
   map_option (\<lambda>e. if Q e then g e else e) (find (\<lambda>e. P (if Q e then g e else e)) xs)"
  by (induction xs) auto

lemma find_key_upd_refs:
  "find (\<lambda>e. e_key e = k) (map (\<lambda>e. if Q e then e\<lparr>e_refs := g e\<rparr> else e) xs) =
   map_option (\<lambda>e. if Q e then e\<lparr>e_refs := g e\<rparr> else e) (find (\<lambda>e. e_key e = k) xs)"
  by (induction xs) auto

lemma find_handle_upd_refs:
  "find (\<lambda>e. e_handle e = h) (map (\<lambda>e. if Q e then e\<lparr>e_refs := g e\<rparr> else e) xs) =
   map_option (\<lambda>e. if Q e then e\<lparr>e_refs := g e\<rparr> else e) (find (\<lambda>e. e_handle e = h) xs)"
  by (induction xs) auto

lemma find_append:
  "find P (xs @ ys) = (case find P xs of None \<Rightarrow> find P ys | Some x \<Rightarrow> Some x)"
  by (induction xs) auto

lemma find_filter_other:
  "(\<And>x. P x \<Longrightarrow> Q x) \<Longrightarrow> find P (filter Q xs) = find P xs"
  by (induction xs) auto

lemma find_filter_none:
  "(\<And>x. P x \<Longrightarrow> \<not> Q x) \<Longrightarrow> find P (filter Q xs) = None"
  by (induction xs) auto




text \<open>
  C3. For every handle with a positive reference count, \<open>release\<close> succeeds and
  decrements the count by one, leaving every other count alone; when the count was 1 the
  entry leaves the table, the object is destroyed through the backend (one destroy call)
  and is no longer live; when it was larger the backend is not called and the table keeps
  its handles. On a handle whose count is zero \<open>release\<close> returns
  \<open>ResourceUnderflow\<close> and the state is unchanged.
\<close>

theorem release_contract:
  "(0 < handle_refcount h s \<longrightarrow>
      fst (release h s) = Inr () \<and>
      handle_refcount h (snd (release h s)) = handle_refcount h s - 1 \<and>
      (\<forall>h'. h' \<noteq> h \<longrightarrow> handle_refcount h' (snd (release h s)) = handle_refcount h' s) \<and>
      (if handle_refcount h s = 1
       then h \<notin> set (map e_handle (nexthops (snd (release h s)))) \<and>
            h \<notin> set (map fst (hw_objects (hw (snd (release h s))))) \<and>
            hw_calls (hw (snd (release h s))) =
              hw_calls (hw s) @ [DestroyObject h (h \<in> fst ` set (hw_objects (hw s)))]
       else map e_handle (nexthops (snd (release h s))) = map e_handle (nexthops s) \<and>
            hw (snd (release h s)) = hw s)) \<and>
   (handle_refcount h s = 0 \<longrightarrow> release h s = (Inl ResourceUnderflow, s))"
proof (intro conjI impI allI)
  assume "handle_refcount h s = 0"
  then show "release h s = (Inl ResourceUnderflow, s)"
    by (auto simp: handle_refcount_def release_def split: option.splits)
next
  assume pos: "0 < handle_refcount h s"
  then obtain e where e: "find (\<lambda>e. e_handle e = h) (nexthops s) = Some e" "0 < e_refs e"
    by (auto simp: handle_refcount_def split: option.splits)
  then have eh: "e_handle e = h" by (auto dest: find_SomeD)
  have hr: "handle_refcount h s = e_refs e" using e by (simp add: handle_refcount_def)
  show "fst (release h s) = Inr ()" using e by (simp add: release_def)
  show "handle_refcount h (snd (release h s)) = handle_refcount h s - 1"
    using e eh
    by (simp add: release_def handle_refcount_def find_handle_upd_refs find_filter_none)
  show "if handle_refcount h s = 1
       then h \<notin> set (map e_handle (nexthops (snd (release h s)))) \<and>
            h \<notin> set (map fst (hw_objects (hw (snd (release h s))))) \<and>
            hw_calls (hw (snd (release h s))) =
              hw_calls (hw s) @ [DestroyObject h (h \<in> fst ` set (hw_objects (hw s)))]
       else map e_handle (nexthops (snd (release h s))) = map e_handle (nexthops s) \<and>
            hw (snd (release h s)) = hw s"
  proof (cases "e_refs e = 1")
    case True
    then have s': "snd (release h s) =
        s\<lparr>nexthops := filter (\<lambda>e'. e_handle e' \<noteq> h) (nexthops s),
          hw := snd (destroyHardwareObject h (hw s))\<rparr>"
      using e by (simp add: release_def)
    have "hw_calls (snd (destroyHardwareObject h (hw s))) =
        hw_calls (hw s) @ [DestroyObject h (h \<in> fst ` set (hw_objects (hw s)))]"
      by (simp add: destroyHardwareObject_def)
    then show ?thesis using True hr by (auto simp: s' destroy_objects)
  next
    case False
    then show ?thesis using e hr by (simp add: release_def)
  qed
  fix h' assume "h' \<noteq> h"
  then have *: "\<And>x. find (\<lambda>e. e_handle e = h') (nexthops s) = Some x \<Longrightarrow> e_handle x \<noteq> h"
    by (auto dest: find_SomeD)
  have "find (\<lambda>e. e_handle e = h') (filter (\<lambda>e'. e_handle e' \<noteq> h) (nexthops s)) =
      find (\<lambda>e. e_handle e = h') (nexthops s)"
    using \<open>h' \<noteq> h\<close> by (intro find_filter_other) simp
  then show "handle_refcount h' (snd (release h s)) = handle_refcount h' s"
    using e *
    by (auto simp: release_def handle_refcount_def find_handle_upd_refs split: option.splits)
qed

theorem release_contract_witness:
  "fst (release 0 table2) = Inr () \<and>
   handle_refcount 0 (snd (release 0 table2)) = 0 \<and>
   nexthops (snd (release 0 table2)) = [] \<and>
   hw_objects (hw (snd (release 0 table2))) = [] \<and>
   hw_calls (hw (snd (release 0 table2))) = [CreateObject 10 (Some 0), DestroyObject 0 True] \<and>
   release 0 (snd (release 0 table2)) = (Inl ResourceUnderflow, snd (release 0 table2)) \<and>
   release 5 table2 = (Inl ResourceUnderflow, table2)"
proof -
  have l: "handle_refcount 0 table2 = 1" "handle_refcount 5 table2 = 0"
    by (simp_all add: handle_refcount_def table2_def)
  have r: "snd (release 0 table2) = table2\<lparr>nexthops := [],
      hw := (hw table2)\<lparr>hw_objects := [], hw_calls := [CreateObject 10 (Some 0), DestroyObject 0 True]\<rparr>\<rparr>"
    by (simp add: release_def table2_def destroyHardwareObject_def)
  have l2: "handle_refcount 0 (snd (release 0 table2)) = 0"
    by (simp add: r handle_refcount_def)
  show ?thesis
    using release_contract[of 0 table2] release_contract[of 5 table2]
      release_contract[of 0 "snd (release 0 table2)"] l l2
    by (simp add: r)
qed

lemma table_ok_handle_bound:
  "table_ok s \<Longrightarrow> e \<in> set (nexthops s) \<Longrightarrow> e_handle e < hw_next (hw s)"
  by (force simp: table_ok_def table_pairs_def list_all_iff)

lemma table_ok_same_key:
  assumes "table_ok s" "e \<in> set (nexthops s)" "e' \<in> set (nexthops s)" "e_key e' = e_key e"
  shows "e' = e"
proof -
  have "distinct (map e_key (nexthops s))" using assms(1) by (simp add: table_ok_def)
  then show ?thesis using assms(2-4) by (metis distinct_map inj_onD)
qed

lemma table_ok_same_handle:
  assumes "table_ok s" "e \<in> set (nexthops s)" "e' \<in> set (nexthops s)" "e_handle e' = e_handle e"
  shows "e' = e"
proof -
  have "distinct (map e_handle (nexthops s))" using assms(1) by (rule table_ok_handles_distinct)
  then show ?thesis using assms(2-4) by (metis distinct_map inj_onD)
qed

lemma lookup_upd_refs [simp]:
  "fst (lookup k (s\<lparr>nexthops := map (\<lambda>e. if Q e then e\<lparr>e_refs := g e\<rparr> else e) (nexthops s)\<rparr>)) =
   fst (lookup k s)"
  by (cases "find (\<lambda>e. e_key e = k) (nexthops s)") (simp_all add: lookup_def find_key_upd_refs)

lemma list_all_map_upd: "(\<And>e. e \<in> set xs \<Longrightarrow> P (f e)) \<Longrightarrow> list_all P (map f xs)"
  by (simp add: list_all_iff)

lemma route_ok_table: "route_ok P s \<Longrightarrow> table_ok s"
  by (simp add: route_ok_def)

lemma referenceOrAdopt_plain:
  "unclaimed s = [] \<Longrightarrow> referenceOrAdopt k s = referenceOrCreate k s"
proof -
  assume "unclaimed s = []"
  then have "find (\<lambda>c. c_key c = k \<and> c_state c = Unclaimed) (cache s) = None"
    by (auto simp: unclaimed_def find_None_iff2 filter_empty_conv)
  then show ?thesis by (simp add: referenceOrAdopt_def)
qed

text \<open>Effect of a reference on the route invariant.\<close>

lemma route_ok_reference_hit:
  assumes ok: "route_ok P s" and f: "find (\<lambda>e. e_key e = k) (nexthops s) = Some e"
  defines "s1 \<equiv> s\<lparr>nexthops := map (\<lambda>e'. if e_key e' = k then e'\<lparr>e_refs := Suc (e_refs e')\<rparr> else e')
                            (nexthops s)\<rparr>"
  shows "route_ok (add_mset (e_handle e) P) s1"
proof -
  have e: "e \<in> set (nexthops s)" "e_key e = k" using f by (auto dest: find_SomeD)
  have t: "table_ok s" using ok by (rule route_ok_table)
  have t1: "table_ok s1"
    using referenceOrCreate_ok[OF t, of k] ok f
    by (simp add: referenceOrCreate_def s1_def route_ok_def)
  let ?inc = "\<lambda>e'. if e_key e' = k then e'\<lparr>e_refs := Suc (e_refs e')\<rparr> else e'"
  have n1: "nexthops s1 = map ?inc (nexthops s)" and f1: "fib s1 = fib s"
    by (simp_all add: s1_def)
  have refs: "list_all (\<lambda>e'. e_refs e' =
      count (mset (fib_handles (fib s1)) + add_mset (e_handle e) P) (e_handle e')) (nexthops s1)"
    unfolding n1 f1
  proof (rule list_all_map_upd)
    fix e' assume m: "e' \<in> set (nexthops s)"
    have old: "e_refs e' = count (mset (fib_handles (fib s)) + P) (e_handle e')"
      using ok m by (simp add: route_ok_def list_all_iff)
    show "e_refs (?inc e') =
        count (mset (fib_handles (fib s)) + add_mset (e_handle e) P) (e_handle (?inc e'))"
    proof (cases "e_key e' = k")
      case True
      then have "e' = e" using table_ok_same_key[OF t e(1) m] e(2) by simp
      then show ?thesis using old e by simp
    next
      case False
      then have "e_handle e' \<noteq> e_handle e" using table_ok_same_handle[OF t e(1) m] e(2) by auto
      then show ?thesis using old False by simp
    qed
  qed
  have sup: "set_mset (mset (fib_handles (fib s1)) + add_mset (e_handle e) P)
      \<subseteq> set (map e_handle (nexthops s1))"
    using ok e(1) by (auto simp: route_ok_def s1_def)
  show ?thesis
    unfolding route_ok_def
    using t1 refs sup ok
    by (simp add: route_ok_def s1_def unclaimed_def unclaimed_routes_def)
qed

lemma route_ok_reference_new:
  assumes ok: "route_ok P s" and f: "find (\<lambda>e. e_key e = k) (nexthops s) = None"
    and room: "length (hw_objects (hw s)) < hw_capacity (hw s)"
  defines "h \<equiv> hw_next (hw s)"
  defines "s1 \<equiv> s\<lparr>nexthops := nexthops s @ [\<lparr>e_key = k, e_handle = h, e_refs = 1\<rparr>],
                   hw := (hw s)\<lparr>hw_objects := hw_objects (hw s) @ [(h, k)],
                                hw_next := Suc h,
                                hw_calls := hw_calls (hw s) @ [CreateObject k (Some h)]\<rparr>\<rparr>"
  shows "route_ok (add_mset h P) s1"
proof -
  have t: "table_ok s" using ok by (rule route_ok_table)
  have un: "unclaimed s = []" using ok by (simp add: route_ok_def)
  have r: "referenceOrCreate k s = (Inr h, s1)"
    using f room by (simp add: referenceOrCreate_def createHardwareObject_def s1_def h_def)
  have t1: "table_ok s1"
    using referenceOrCreate_ok[OF t, of k] un r by simp
  have bound: "e_handle e' \<noteq> h" if "e' \<in> set (nexthops s)" for e'
    using table_ok_handle_bound[OF t that] by (simp add: h_def)
  have sup0: "set_mset (mset (fib_handles (fib s)) + P) \<subseteq> set (map e_handle (nexthops s))"
    using ok by (simp add: route_ok_def)
  then have fresh: "count (mset (fib_handles (fib s)) + P) h = 0"
    using bound by (auto simp: count_eq_zero_iff simp del: count_union)
  have refs: "list_all (\<lambda>e'. e_refs e' =
      count (mset (fib_handles (fib s1)) + add_mset h P) (e_handle e')) (nexthops s1)"
  proof -
    have old: "\<forall>e'\<in>set (nexthops s). e_refs e' =
        count (mset (fib_handles (fib s)) + P) (e_handle e')"
      using ok by (simp add: route_ok_def list_all_iff)
    have "\<forall>e'\<in>set (nexthops s). e_refs e' =
        count (mset (fib_handles (fib s)) + add_mset h P) (e_handle e')"
      using old bound bound[symmetric] by simp
    then show ?thesis using fresh by (simp add: s1_def list_all_iff)
  qed
  have sup: "set_mset (mset (fib_handles (fib s1)) + add_mset h P)
      \<subseteq> set (map e_handle (nexthops s1))"
    using sup0 by (auto simp: s1_def)
  have look: "list_all (\<lambda>(r, nhs, hs). map Some hs = map (\<lambda>k. fst (lookup k s1)) nhs) (fib s1)"
  proof -
    have old: "\<forall>x\<in>set (fib s). case x of (r, nhs, hs) \<Rightarrow>
        map Some hs = map (\<lambda>k. fst (lookup k s)) nhs"
      using ok by (simp add: route_ok_def list_all_iff)
    have keep: "fst (lookup k' s1) = fst (lookup k' s)" if "fst (lookup k' s) \<noteq> None" for k'
      using that by (auto simp: lookup_def s1_def find_append split: option.splits)
    have "map (\<lambda>k. fst (lookup k s1)) nhs = map (\<lambda>k. fst (lookup k s)) nhs"
      if "(r, nhs, hs) \<in> set (fib s)" for r nhs hs
    proof (rule map_cong[OF refl])
      fix k' assume k': "k' \<in> set nhs"
      have "map Some hs = map (\<lambda>k. fst (lookup k s)) nhs" using old that by auto
      then have "fst (lookup k' s) \<in> set (map Some hs)" using k' by simp
      then have "fst (lookup k' s) \<noteq> None" by auto
      then show "fst (lookup k' s1) = fst (lookup k' s)" by (rule keep)
    qed
    then show ?thesis using old by (auto simp: list_all_iff s1_def)
  qed
  show ?thesis
    unfolding route_ok_def
    using t1 refs sup look ok
    by (simp add: route_ok_def s1_def unclaimed_def unclaimed_routes_def)
qed

lemma replay_snoc:
  "replay (cs @ [c]) st = (case replay cs st of None \<Rightarrow> None | Some st' \<Rightarrow> hw_step c st')"
  by (induction cs arbitrary: st) (auto split: option.splits)

lemma route_ok_handles_live:
  assumes "route_ok P s"
  shows "set (map e_handle (nexthops s)) = set (map fst (hw_objects (hw s)))"
proof -
  have "set (hw_objects (hw s)) = set (table_pairs s)"
    using assms by (simp add: route_ok_def table_ok_def cache_pairs_def)
  then have "fst ` set (hw_objects (hw s)) = fst ` set (table_pairs s)" by simp
  then show ?thesis by (simp add: table_pairs_def image_image)
qed

lemma route_ok_release:
  assumes ok: "route_ok (add_mset h P) s" and lg: "log_ok s"
  shows "\<exists>s1. release h s = (Inr (), s1) \<and> route_ok P s1 \<and> log_ok s1 \<and> keeps s s1"
proof -
  let ?M = "mset (fib_handles (fib s))"
  have t: "table_ok s" using ok by (rule route_ok_table)
  have "h \<in> set (map e_handle (nexthops s))" using ok by (auto simp: route_ok_def)
  then obtain e where f: "find (\<lambda>e. e_handle e = h) (nexthops s) = Some e"
    by (cases "find (\<lambda>e. e_handle e = h) (nexthops s)") (auto simp: find_None_iff2)
  then have e: "e \<in> set (nexthops s)" "e_handle e = h" by (auto dest: find_SomeD)
  have old: "\<forall>e'\<in>set (nexthops s). e_refs e' = count (?M + add_mset h P) (e_handle e')"
    using ok by (simp add: route_ok_def list_all_iff)
  have refs_e: "e_refs e = Suc (count (?M + P) h)" using old e by simp
  have sup0: "set_mset (?M + P) \<subseteq> set (map e_handle (nexthops s))"
    using ok by (auto simp: route_ok_def)
  have looks: "\<forall>x\<in>set (fib s). case x of (r, nhs, hs) \<Rightarrow>
        map Some hs = map (\<lambda>k. fst (lookup k s)) nhs"
    using ok by (simp add: route_ok_def list_all_iff)
  show ?thesis
  proof (cases "count (?M + P) h = 0")
    case False
    let ?dec = "\<lambda>e'. if e_handle e' = h then e'\<lparr>e_refs := e_refs e' - 1\<rparr> else e'"
    let ?s1 = "s\<lparr>nexthops := map ?dec (nexthops s)\<rparr>"
    have "e_refs e \<noteq> 0" "e_refs e - 1 \<noteq> 0" using refs_e False by linarith+
    then have r: "release h s = (Inr (), ?s1)" using f by (simp add: release_def)
    have t1: "table_ok ?s1" using release_ok[OF t, of h] r by simp
    have n1: "nexthops ?s1 = map ?dec (nexthops s)" and f1: "fib ?s1 = fib s" by simp_all
    have refs: "list_all (\<lambda>e'. e_refs e' = count (mset (fib_handles (fib ?s1)) + P) (e_handle e'))
        (nexthops ?s1)"
      unfolding n1 f1
    proof (rule list_all_map_upd)
      fix e' assume m: "e' \<in> set (nexthops s)"
      show "e_refs (?dec e') = count (?M + P) (e_handle (?dec e'))"
        using old m by (cases "e_handle e' = h") simp_all
    qed
    have sup: "set_mset (mset (fib_handles (fib ?s1)) + P) \<subseteq> set (map e_handle (nexthops ?s1))"
      using sup0 by simp
    have look: "list_all (\<lambda>(r, nhs, hs). map Some hs = map (\<lambda>k. fst (lookup k ?s1)) nhs) (fib ?s1)"
      using looks by (simp add: list_all_iff)
    have "route_ok P ?s1"
      unfolding route_ok_def using t1 refs sup look ok
      by (simp add: route_ok_def unclaimed_def unclaimed_routes_def)
    moreover have "log_ok ?s1" using lg by (simp add: log_ok_def)
    moreover have "keeps s ?s1" by (simp add: keeps_def)
    ultimately show ?thesis using r by blast
  next
    case True
    let ?b = "snd (destroyHardwareObject h (hw s))"
    let ?s1 = "s\<lparr>nexthops := filter (\<lambda>e'. e_handle e' \<noteq> h) (nexthops s), hw := ?b\<rparr>"
    have "e_refs e \<noteq> 0" "e_refs e - 1 = 0" using refs_e True by linarith+
    then have r: "release h s = (Inr (), ?s1)" using f by (simp add: release_def)
    have t1: "table_ok ?s1" using release_ok[OF t, of h] r by simp
    have hM: "h \<notin> set (fib_handles (fib s))" and hP: "h \<notin># P"
      using True by (auto simp: count_eq_zero_iff simp del: count_union)
    have refs: "list_all (\<lambda>e'. e_refs e' = count (mset (fib_handles (fib ?s1)) + P) (e_handle e'))
        (nexthops ?s1)"
      using old by (auto simp: list_all_iff)
    have sup: "set_mset (mset (fib_handles (fib ?s1)) + P) \<subseteq> set (map e_handle (nexthops ?s1))"
      using sup0 hM hP by auto
    have keep: "fst (lookup k' ?s1) = fst (lookup k' s)" if "fst (lookup k' s) \<noteq> Some h" for k'
    proof (cases "find (\<lambda>e. e_key e = k') (nexthops s)")
      case None
      then have "find (\<lambda>e. e_key e = k') (filter (\<lambda>e'. e_handle e' \<noteq> h) (nexthops s)) = None"
        by (auto simp: find_None_iff2)
      then show ?thesis using None by (simp add: lookup_def)
    next
      case (Some x)
      then have x: "x \<in> set (nexthops s)" "e_key x = k'" by (auto dest: find_SomeD)
      have xh: "e_handle x \<noteq> h" using that Some by (simp add: lookup_def)
      have "find (\<lambda>e. e_key e = k') (filter (\<lambda>e'. e_handle e' \<noteq> h) (nexthops s)) = Some x"
      proof (cases "find (\<lambda>e. e_key e = k') (filter (\<lambda>e'. e_handle e' \<noteq> h) (nexthops s))")
        case None
        then show ?thesis using x xh by (auto simp: find_None_iff2)
      next
        case (Some y)
        then have "y \<in> set (nexthops s)" "e_key y = k'" by (auto dest: find_SomeD)
        then have "y = x" using table_ok_same_key[OF t x(1)] x(2) by simp
        then show ?thesis using Some by simp
      qed
      then show ?thesis using Some by (simp add: lookup_def)
    qed
    have look: "list_all (\<lambda>(r, nhs, hs). map Some hs = map (\<lambda>k. fst (lookup k ?s1)) nhs) (fib ?s1)"
    proof -
      have "map (\<lambda>k. fst (lookup k ?s1)) nhs = map (\<lambda>k. fst (lookup k s)) nhs"
        if m: "(r, nhs, hs) \<in> set (fib s)" for r nhs hs
      proof (rule map_cong[OF refl])
        fix k' assume k': "k' \<in> set nhs"
        have eq: "map Some hs = map (\<lambda>k. fst (lookup k s)) nhs" using looks m by auto
        have "set hs \<subseteq> set (fib_handles (fib s))" using m by (force simp: fib_handles_def)
        then have "h \<notin> set hs" using hM by auto
        then have "Some h \<notin> set (map Some hs)" by auto
        then have "Some h \<notin> set (map (\<lambda>k. fst (lookup k s)) nhs)" using eq by simp
        then have "fst (lookup k' s) \<noteq> Some h" using k' by (metis (mono_tags, lifting) image_eqI list.set_map)
        then show "fst (lookup k' ?s1) = fst (lookup k' s)" by (rule keep)
      qed
      then show ?thesis using looks by (auto simp: list_all_iff)
    qed
    have "route_ok P ?s1"
      unfolding route_ok_def using t1 refs sup look ok
      by (simp add: route_ok_def unclaimed_def unclaimed_routes_def)
    moreover have "log_ok ?s1"
    proof -
      have live: "h \<in> fst ` set (hw_objects (hw s))"
        using route_ok_handles_live[OF ok] e by force
      have noref: "\<not> list_ex (\<lambda>rt. h \<in> set (snd rt)) (hw_routes (hw s))"
      proof -
        have "hw_routes (hw s) = map (\<lambda>(r, nhs, hs). (r, hs)) (fib s)"
          using ok by (simp add: route_ok_def)
        moreover have "\<And>r nhs hs. (r, nhs, hs) \<in> set (fib s) \<Longrightarrow> h \<notin> set hs"
          using hM by (force simp: fib_handles_def)
        ultimately show ?thesis by (auto simp: list_ex_iff)
      qed
      have "hw_calls ?b = hw_calls (hw s) @ [DestroyObject h True]"
        "hw_objects ?b = filter (\<lambda>ob. fst ob \<noteq> h) (hw_objects (hw s))"
        "hw_routes ?b = hw_routes (hw s)"
        using live by (simp_all add: destroyHardwareObject_def)
      then show ?thesis using lg noref
        by (simp add: log_ok_def replay_snoc filter_map comp_def)
    qed
    moreover have "keeps s ?s1" by (simp add: keeps_def)
    ultimately show ?thesis using r by blast
  qed
qed

lemma route_ok_calls_cong [simp]:
  "route_ok P (s\<lparr>hw := (hw s)\<lparr>hw_calls := c\<rparr>\<rparr>) = route_ok P s"
  by (simp add: route_ok_def table_ok_def table_pairs_def cache_pairs_def unclaimed_def
      unclaimed_routes_def lookup_def)

lemma restored_refl [simp]: "restored s s"
  by (simp add: restored_def)

lemma restored_trans: "restored s s1 \<Longrightarrow> restored s1 s2 \<Longrightarrow> restored s s2"
  unfolding restored_def
proof -
  assume a: "s1 = s\<lparr>hw := (hw s)\<lparr>hw_next := hw_next (hw s1), hw_calls := hw_calls (hw s1)\<rparr>\<rparr>"
    and b: "s2 = s1\<lparr>hw := (hw s1)\<lparr>hw_next := hw_next (hw s2), hw_calls := hw_calls (hw s2)\<rparr>\<rparr>"
  have "s2 = (s\<lparr>hw := (hw s)\<lparr>hw_next := hw_next (hw s1), hw_calls := hw_calls (hw s1)\<rparr>\<rparr>)
      \<lparr>hw := (hw s)\<lparr>hw_next := hw_next (hw s1), hw_calls := hw_calls (hw s1)\<rparr>
             \<lparr>hw_next := hw_next (hw s2), hw_calls := hw_calls (hw s2)\<rparr>\<rparr>"
    using b by (subst (asm) (1 2) a) simp
  then show "s2 = s\<lparr>hw := (hw s)\<lparr>hw_next := hw_next (hw s2), hw_calls := hw_calls (hw s2)\<rparr>\<rparr>"
    by simp
qed

lemma restoredD:
  "restored s s1 \<Longrightarrow> nexthops s1 = nexthops s \<and> fib s1 = fib s \<and> cache s1 = cache s \<and>
     rcache s1 = rcache s \<and> hw_objects (hw s1) = hw_objects (hw s) \<and>
     hw_routes (hw s1) = hw_routes (hw s) \<and> hw_capacity (hw s1) = hw_capacity (hw s) \<and>
     hw_route_capacity (hw s1) = hw_route_capacity (hw s)"
  unfolding restored_def
  by (erule ssubst) simp

lemma restoredI:
  "nexthops s1 = nexthops s \<Longrightarrow> fib s1 = fib s \<Longrightarrow> cache s1 = cache s \<Longrightarrow>
   rcache s1 = rcache s \<Longrightarrow> hw_objects (hw s1) = hw_objects (hw s) \<Longrightarrow>
   hw_routes (hw s1) = hw_routes (hw s) \<Longrightarrow> hw_capacity (hw s1) = hw_capacity (hw s) \<Longrightarrow>
   hw_route_capacity (hw s1) = hw_route_capacity (hw s) \<Longrightarrow> restored s s1"
  unfolding restored_def
  by (cases s, cases s1, cases "hw s", cases "hw s1") simp

lemma reference_hit_undo:
  assumes t: "table_ok s" and f: "find (\<lambda>e. e_key e = k) (nexthops s) = Some e"
    and r: "restored (s\<lparr>nexthops := map (\<lambda>e'. if e_key e' = k then e'\<lparr>e_refs := Suc (e_refs e')\<rparr> else e')
                            (nexthops s)\<rparr>) s1'"
  shows "\<exists>s2. release (e_handle e) s1' = (Inr (), s2) \<and> restored s s2"
proof -
  let ?h = "e_handle e"
  let ?inc = "\<lambda>e'. if e_key e' = k then e'\<lparr>e_refs := Suc (e_refs e')\<rparr> else e'"
  let ?dec = "\<lambda>e'. if e_handle e' = ?h then e'\<lparr>e_refs := e_refs e' - 1\<rparr> else e'"
  have e: "e \<in> set (nexthops s)" "e_key e = k" using f by (auto dest: find_SomeD)
  have n1: "nexthops s1' = map ?inc (nexthops s)" using restoredD[OF r] by simp
  have fh: "find (\<lambda>e'. e_handle e' = ?h) (nexthops s) = Some e"
  proof (cases "find (\<lambda>e'. e_handle e' = ?h) (nexthops s)")
    case None
    then show ?thesis using e by (auto simp: find_None_iff2)
  next
    case (Some y)
    then have "y \<in> set (nexthops s)" "e_handle y = ?h" by (auto dest: find_SomeD)
    then have "y = e" using table_ok_same_handle[OF t e(1)] by simp
    then show ?thesis using Some by simp
  qed
  have pos: "0 < e_refs e" using t e by (simp add: table_ok_def list_all_iff)
  have fh1: "find (\<lambda>e'. e_handle e' = ?h) (nexthops s1') = Some (e\<lparr>e_refs := Suc (e_refs e)\<rparr>)"
    unfolding n1 using fh e by (simp add: find_handle_upd_refs)
  have undo: "map ?dec (map ?inc (nexthops s)) = nexthops s"
  proof -
    have "(?dec \<circ> ?inc) e' = e'" if m: "e' \<in> set (nexthops s)" for e'
    proof (cases "e_key e' = k")
      case True
      then have "e' = e" using table_ok_same_key[OF t e(1) m] e(2) by simp
      then show ?thesis using e by simp
    next
      case False
      then have "e_handle e' \<noteq> ?h" using table_ok_same_handle[OF t e(1) m] e(2) by auto
      then show ?thesis using False by simp
    qed
    then have "map (?dec \<circ> ?inc) (nexthops s) = nexthops s" by (rule map_idI)
    then show ?thesis by (simp del: upd_refs_key upd_refs_handle upd_refs_pair)
  qed
  let ?s2 = "s1'\<lparr>nexthops := map ?dec (nexthops s1')\<rparr>"
  have "release ?h s1' = (Inr (), ?s2)"
    using fh1 pos by (simp add: release_def)
  moreover have "restored s ?s2"
  proof (rule restoredI)
    show "nexthops ?s2 = nexthops s" using undo n1 by simp
  qed (use restoredD[OF r] in simp_all)
  ultimately show ?thesis by blast
qed

lemma reference_new_undo:
  assumes t: "table_ok s" and f: "find (\<lambda>e. e_key e = k) (nexthops s) = None"
    and r: "restored (s\<lparr>nexthops := nexthops s @ [\<lparr>e_key = k, e_handle = hw_next (hw s), e_refs = 1\<rparr>],
                   hw := (hw s)\<lparr>hw_objects := hw_objects (hw s) @ [(hw_next (hw s), k)],
                                hw_next := Suc (hw_next (hw s)),
                                hw_calls := hw_calls (hw s) @ [CreateObject k (Some (hw_next (hw s)))]\<rparr>\<rparr>) s1'"
  shows "\<exists>s2. release (hw_next (hw s)) s1' = (Inr (), s2) \<and> restored s s2"
proof -
  let ?h = "hw_next (hw s)"
  have n1: "nexthops s1' = nexthops s @ [\<lparr>e_key = k, e_handle = ?h, e_refs = 1\<rparr>]"
    and o1: "hw_objects (hw s1') = hw_objects (hw s) @ [(?h, k)]"
    using restoredD[OF r] by simp_all
  have bound: "e_handle e' \<noteq> ?h" if "e' \<in> set (nexthops s)" for e'
    using table_ok_handle_bound[OF t that] by simp
  have "list_all (\<lambda>ob. fst ob < ?h) (hw_objects (hw s))"
    using t by (simp add: table_ok_def)
  then have obound: "fst ob \<noteq> ?h" if "ob \<in> set (hw_objects (hw s))" for ob
    using that by (auto simp: list_all_iff)
  have fn: "find (\<lambda>e'. e_handle e' = ?h) (nexthops s) = None"
    using bound by (auto simp: find_None_iff2)
  have fh1: "find (\<lambda>e'. e_handle e' = ?h) (nexthops s1') = Some \<lparr>e_key = k, e_handle = ?h, e_refs = 1\<rparr>"
    unfolding n1 using fn by (simp add: find_append)
  let ?s2 = "s1'\<lparr>nexthops := filter (\<lambda>e'. e_handle e' \<noteq> ?h) (nexthops s1'),
                 hw := snd (destroyHardwareObject ?h (hw s1'))\<rparr>"
  have rel: "release ?h s1' = (Inr (), ?s2)"
    using fh1 by (simp add: release_def)
  have nn: "filter (\<lambda>e'. e_handle e' \<noteq> ?h) (nexthops s1') = nexthops s"
    unfolding n1 using bound by (simp add: filter_id_conv)
  have oo: "filter (\<lambda>ob. fst ob \<noteq> ?h) (hw_objects (hw s1')) = hw_objects (hw s)"
    unfolding o1 using obound by (simp add: filter_id_conv)
  have "restored s ?s2"
  proof (rule restoredI)
    show "nexthops ?s2 = nexthops s" using nn by simp
    show "hw_objects (hw ?s2) = hw_objects (hw s)" using oo by (simp add: destroy_objects)
  qed (use restoredD[OF r] in simp_all)
  then show ?thesis using rel by blast
qed

lemma step_ref:
  assumes ok: "route_ok P s" and lg: "log_ok s"
  shows "case referenceOrAdopt k s of
     (Inr h, s1) \<Rightarrow> route_ok (add_mset h P) s1 \<and> log_ok s1 \<and> keeps s s1 \<and>
         fst (lookup k s1) = Some h \<and>
         (\<forall>k'. fst (lookup k' s) \<noteq> None \<longrightarrow> fst (lookup k' s1) = fst (lookup k' s)) \<and>
         (\<forall>s1'. restored s1 s1' \<longrightarrow> (\<exists>s2. release h s1' = (Inr (), s2) \<and> restored s s2))
   | (Inl e, s1) \<Rightarrow> e = HardwareResourceExhausted \<and> route_ok P s1 \<and> log_ok s1 \<and> restored s s1"
proof -
  have t: "table_ok s" using ok by (rule route_ok_table)
  have un: "unclaimed s = []" using ok by (simp add: route_ok_def)
  have plain: "referenceOrAdopt k s = referenceOrCreate k s"
    using un by (rule referenceOrAdopt_plain)
  show ?thesis
  proof (cases "find (\<lambda>e. e_key e = k) (nexthops s)")
    case (Some e)
    let ?s1 = "s\<lparr>nexthops := map (\<lambda>e'. if e_key e' = k then e'\<lparr>e_refs := Suc (e_refs e')\<rparr> else e')
                            (nexthops s)\<rparr>"
    have e: "e \<in> set (nexthops s)" "e_key e = k" using Some by (auto dest: find_SomeD)
    have r: "referenceOrAdopt k s = (Inr (e_handle e), ?s1)"
      using Some by (simp add: plain referenceOrCreate_def)
    have 1: "route_ok (add_mset (e_handle e) P) ?s1"
      using route_ok_reference_hit[OF ok Some] .
    have 2: "log_ok ?s1" using lg by (simp add: log_ok_def)
    have 3: "keeps s ?s1" by (simp add: keeps_def)
    have "fst (lookup k s) = Some (e_handle e)" using Some by (simp add: lookup_def)
    then have 4: "fst (lookup k ?s1) = Some (e_handle e)" by simp
    have 5: "\<forall>k'. fst (lookup k' s) \<noteq> None \<longrightarrow> fst (lookup k' ?s1) = fst (lookup k' s)"
      by simp
    have 6: "\<forall>s1'. restored ?s1 s1' \<longrightarrow>
        (\<exists>s2. release (e_handle e) s1' = (Inr (), s2) \<and> restored s s2)"
      using reference_hit_undo[OF t Some] by blast
    show ?thesis unfolding r using 1 2 3 4 5 6 by simp
  next
    case None
    show ?thesis
    proof (cases "length (hw_objects (hw s)) < hw_capacity (hw s)")
      case True
      let ?h = "hw_next (hw s)"
      let ?s1 = "s\<lparr>nexthops := nexthops s @ [\<lparr>e_key = k, e_handle = ?h, e_refs = 1\<rparr>],
                   hw := (hw s)\<lparr>hw_objects := hw_objects (hw s) @ [(?h, k)],
                                hw_next := Suc ?h,
                                hw_calls := hw_calls (hw s) @ [CreateObject k (Some ?h)]\<rparr>\<rparr>"
      have r: "referenceOrAdopt k s = (Inr ?h, ?s1)"
        using None True by (simp add: plain referenceOrCreate_def createHardwareObject_def)
      have 1: "route_ok (add_mset ?h P) ?s1"
        using route_ok_reference_new[OF ok None True] .
      have "list_all (\<lambda>ob. fst ob < ?h) (hw_objects (hw s))"
        using t by (simp add: table_ok_def)
      then have "?h \<notin> set (map fst (hw_objects (hw s)))"
        by (auto simp: list_all_iff)
      then have 2: "log_ok ?s1" using lg by (simp add: log_ok_def replay_snoc)
      have 3: "keeps s ?s1" by (simp add: keeps_def)
      have 4: "fst (lookup k ?s1) = Some ?h" using None by (simp add: lookup_def find_append)
      have 5: "\<forall>k'. fst (lookup k' s) \<noteq> None \<longrightarrow> fst (lookup k' ?s1) = fst (lookup k' s)"
        by (auto simp: lookup_def find_append split: option.splits)
      have 6: "\<forall>s1'. restored ?s1 s1' \<longrightarrow>
          (\<exists>s2. release ?h s1' = (Inr (), s2) \<and> restored s s2)"
        using reference_new_undo[OF t None] by blast
      show ?thesis unfolding r using 1 2 3 4 5 6 by simp
    next
      case False
      let ?s1 = "s\<lparr>hw := (hw s)\<lparr>hw_calls := hw_calls (hw s) @ [CreateObject k None]\<rparr>\<rparr>"
      have r: "referenceOrAdopt k s = (Inl HardwareResourceExhausted, ?s1)"
        using None False by (simp add: plain referenceOrCreate_def createHardwareObject_def)
      have 1: "route_ok P ?s1" using ok by simp
      have 2: "log_ok ?s1" using lg by (simp add: log_ok_def replay_snoc)
      have 3: "restored s ?s1" by (rule restoredI) simp_all
      show ?thesis unfolding r using 1 2 3 by simp
    qed
  qed
qed

lemma releaseAll_append:
  "releaseAll (xs @ ys) s =
     (case releaseAll xs s of (Inl e, s1) \<Rightarrow> (Inl e, s1) | (Inr u, s1) \<Rightarrow> releaseAll ys s1)"
  by (induction xs arbitrary: s) (auto split: prod.splits sum.splits)

lemma keeps_refl [simp]: "keeps s s"
  by (simp add: keeps_def)

lemma keeps_trans: "keeps s s1 \<Longrightarrow> keeps s1 s2 \<Longrightarrow> keeps s s2"
  by (simp add: keeps_def)

lemma route_ok_releaseAll:
  "route_ok (mset hs + P) s \<Longrightarrow> log_ok s \<Longrightarrow>
   \<exists>s1. releaseAll hs s = (Inr (), s1) \<and> route_ok P s1 \<and> log_ok s1 \<and> keeps s s1"
proof (induction hs arbitrary: s)
  case Nil
  then show ?case by simp
next
  case (Cons h hs)
  have "route_ok (add_mset h (mset hs + P)) s" using Cons.prems(1) by simp
  from route_ok_release[OF this Cons.prems(2)] obtain s1 where
    s1: "release h s = (Inr (), s1)" "route_ok (mset hs + P) s1" "log_ok s1" "keeps s s1"
    by blast
  from Cons.IH[OF s1(2,3)] obtain s2 where
    s2: "releaseAll hs s1 = (Inr (), s2)" "route_ok P s2" "log_ok s2" "keeps s1 s2"
    by blast
  show ?case using s1 s2 keeps_trans by (auto simp: )
qed

lemma step_acquire:
  "route_ok P s \<Longrightarrow> log_ok s \<Longrightarrow>
   (case acquire ks s of
     (Inr hs, s1) \<Rightarrow> route_ok (mset hs + P) s1 \<and> log_ok s1 \<and> keeps s s1 \<and>
         map Some hs = map (\<lambda>k. fst (lookup k s1)) ks \<and>
         (\<forall>k'. fst (lookup k' s) \<noteq> None \<longrightarrow> fst (lookup k' s1) = fst (lookup k' s)) \<and>
         (\<forall>s1'. restored s1 s1' \<longrightarrow> (\<exists>s2. releaseAll (rev hs) s1' = (Inr (), s2) \<and> restored s s2))
   | (Inl e, s1) \<Rightarrow> e = HardwareResourceExhausted \<and> route_ok P s1 \<and> log_ok s1 \<and> restored s s1)"
proof (induction ks arbitrary: s P)
  case Nil
  then show ?case by simp
next
  case (Cons k ks)
  note ref = step_ref[OF Cons.prems, of k]
  show ?case
  proof (cases "referenceOrAdopt k s")
    case (Pair res s1)
    show ?thesis
    proof (cases res)
      case (Inl e)
      then show ?thesis using ref Pair by simp
    next
      case (Inr h)
      have a: "route_ok (add_mset h P) s1" "log_ok s1" "keeps s s1" "fst (lookup k s1) = Some h"
        and look1: "\<forall>k'. fst (lookup k' s) \<noteq> None \<longrightarrow> fst (lookup k' s1) = fst (lookup k' s)"
        and undo1: "\<forall>s1'. restored s1 s1' \<longrightarrow> (\<exists>s2. release h s1' = (Inr (), s2) \<and> restored s s2)"
        using ref Pair Inr by simp_all
      note ih = Cons.IH[OF a(1,2)]
      show ?thesis
      proof (cases "acquire ks s1")
        case (Pair res2 s2)
        note P2 = Pair
        show ?thesis
        proof (cases res2)
          case (Inl e)
          have b: "e = HardwareResourceExhausted" "route_ok (add_mset h P) s2" "log_ok s2"
            "restored s1 s2"
            using ih P2 Inl by simp_all
          from undo1 b(4) obtain s3 where s3: "release h s2 = (Inr (), s3)" "restored s s3"
            by blast
          from route_ok_release[OF b(2,3)] s3(1) have "route_ok P s3" "log_ok s3" by auto
          then show ?thesis
            using \<open>referenceOrAdopt k s = (res, s1)\<close> \<open>res = Inr h\<close> P2 Inl b(1) s3 by simp
        next
          case (Inr hs)
          have b: "route_ok (mset hs + add_mset h P) s2" "log_ok s2" "keeps s1 s2"
            "map Some hs = map (\<lambda>k. fst (lookup k s2)) ks"
            and look2: "\<forall>k'. fst (lookup k' s1) \<noteq> None \<longrightarrow> fst (lookup k' s2) = fst (lookup k' s1)"
            and undo2: "\<forall>s1'. restored s2 s1' \<longrightarrow>
                (\<exists>s3. releaseAll (rev hs) s1' = (Inr (), s3) \<and> restored s1 s3)"
            using ih P2 Inr by simp_all
          have 1: "route_ok (mset (h # hs) + P) s2" using b(1) by simp
          have 3: "keeps s s2" using a(3) b(3) by (rule keeps_trans)
          have 4: "map Some (h # hs) = map (\<lambda>k. fst (lookup k s2)) (k # ks)"
            using b(4) a(4) look2 by simp
          have 5: "\<forall>k'. fst (lookup k' s) \<noteq> None \<longrightarrow> fst (lookup k' s2) = fst (lookup k' s)"
            using look1 look2 by simp
          have 6: "\<forall>s1'. restored s2 s1' \<longrightarrow>
              (\<exists>s3. releaseAll (rev (h # hs)) s1' = (Inr (), s3) \<and> restored s s3)"
          proof (intro allI impI)
            fix s1' assume "restored s2 s1'"
            with undo2 obtain s3 where s3: "releaseAll (rev hs) s1' = (Inr (), s3)" "restored s1 s3"
              by blast
            with undo1 obtain s4 where s4: "release h s3 = (Inr (), s4)" "restored s s4"
              by blast
            show "\<exists>s3. releaseAll (rev (h # hs)) s1' = (Inr (), s3) \<and> restored s s3"
              using s3 s4 by (simp add: releaseAll_append)
          qed
          show ?thesis
            using \<open>referenceOrAdopt k s = (res, s1)\<close> \<open>res = Inr h\<close> P2 Inr 1 b(2) 3 4 5 6
            by simp
        qed
      qed
    qed
  qed
qed

lemma fib_handles_append [simp]:
  "fib_handles (f @ [(r, nhs, hs)]) = fib_handles f @ hs"
  by (simp add: fib_handles_def)

lemma fib_handles_Cons [simp]:
  "fib_handles ((r, nhs, hs) # f) = hs @ fib_handles f"
  by (simp add: fib_handles_def)

lemma fib_handles_Nil [simp]: "fib_handles [] = []"
  by (simp add: fib_handles_def)

lemma fib_handles_remove_absent:
  "r \<notin> fst ` set f \<Longrightarrow> filter (\<lambda>x. fst x \<noteq> r) f = f"
  by (induction f) auto

lemma fib_handles_update_absent:
  "r \<notin> fst ` set f \<Longrightarrow> map (\<lambda>x. if fst x = r then y else x) f = f"
  by (induction f) auto

lemma fib_handles_remove:
  "distinct (map fst f) \<Longrightarrow> (r, nhs, hs) \<in> set f \<Longrightarrow>
   mset (fib_handles (filter (\<lambda>x. fst x \<noteq> r) f)) + mset hs = mset (fib_handles f)"
proof (induction f)
  case Nil
  then show ?case by simp
next
  case (Cons a f)
  obtain r' nhs' hs' where a: "a = (r', nhs', hs')" by (cases a) auto
  show ?case
  proof (cases "r' = r")
    case True
    then have "r \<notin> fst ` set f" using Cons.prems(1) a by auto
    then have "filter (\<lambda>x. fst x \<noteq> r) f = f" and "(r, nhs, hs) \<notin> set f"
      by (auto simp: fib_handles_remove_absent intro: rev_image_eqI)
    then show ?thesis using Cons.prems(2) a True by auto
  next
    case False
    then show ?thesis using Cons a by auto
  qed
qed

lemma fib_handles_update:
  "distinct (map fst f) \<Longrightarrow> (r, nhs0, hs0) \<in> set f \<Longrightarrow>
   mset (fib_handles (map (\<lambda>x. if fst x = r then (r, nhs, hs) else x) f)) + mset hs0 =
   mset (fib_handles f) + mset hs"
proof (induction f)
  case Nil
  then show ?case by simp
next
  case (Cons a f)
  obtain r' nhs' hs' where a: "a = (r', nhs', hs')" by (cases a) auto
  show ?case
  proof (cases "r' = r")
    case True
    then have "r \<notin> fst ` set f" using Cons.prems(1) a by auto
    then have "map (\<lambda>x. if fst x = r then (r, nhs, hs) else x) f = f" and "(r, nhs0, hs0) \<notin> set f"
      by (auto simp: fib_handles_update_absent intro: rev_image_eqI)
    then show ?thesis using Cons.prems(2) a True by auto
  next
    case False
    then show ?thesis using Cons a by auto
  qed
qed

lemma find_fst_Some:
  "find (\<lambda>f. fst f = r) xs = Some (r', a, b) \<Longrightarrow> r' = r \<and> (r, a, b) \<in> set xs"
  by (auto dest: find_SomeD)

lemma find_fst_None: "find (\<lambda>f. fst f = r) xs = None \<Longrightarrow> r \<notin> fst ` set xs"
  by (auto simp: find_None_iff2)

lemma lookup_nexthops_cong:
  "nexthops s1 = nexthops s \<Longrightarrow> fst (lookup k s1) = fst (lookup k s)"
  by (simp add: lookup_def)

lemma route_okI:
  assumes "table_ok s" "unclaimed s = []" "unclaimed_routes s = []"
    "hw_routes (hw s) = map (\<lambda>(r, nhs, hs). (r, hs)) (fib s)"
    "distinct (map fst (fib s))"
    "\<And>e. e \<in> set (nexthops s) \<Longrightarrow> e_refs e = count (mset (fib_handles (fib s)) + P) (e_handle e)"
    "set_mset (mset (fib_handles (fib s)) + P) \<subseteq> set (map e_handle (nexthops s))"
    "\<And>r nhs hs. (r, nhs, hs) \<in> set (fib s) \<Longrightarrow> map Some hs = map (\<lambda>k. fst (lookup k s)) nhs"
  shows "route_ok P s"
  unfolding route_ok_def list_all_iff using assms by blast

lemma route_okD:
  assumes "route_ok P s"
  shows "table_ok s" "unclaimed s = []" "unclaimed_routes s = []"
    "hw_routes (hw s) = map (\<lambda>(r, nhs, hs). (r, hs)) (fib s)"
    "distinct (map fst (fib s))"
    "\<And>e. e \<in> set (nexthops s) \<Longrightarrow> e_refs e = count (mset (fib_handles (fib s)) + P) (e_handle e)"
    "set_mset (mset (fib_handles (fib s)) + P) \<subseteq> set (map e_handle (nexthops s))"
    "\<And>r nhs hs. (r, nhs, hs) \<in> set (fib s) \<Longrightarrow> map Some hs = map (\<lambda>k. fst (lookup k s)) nhs"
  using assms unfolding route_ok_def list_all_iff by blast+

text \<open>Changing only the routes of the hardware, the log and the fib.\<close>

lemma route_ok_new_fib:
  assumes ok: "route_ok P s"
    and same: "nexthops s' = nexthops s" "cache s' = cache s" "rcache s' = rcache s"
      "hw_objects (hw s') = hw_objects (hw s)" "hw_next (hw s') = hw_next (hw s)"
    and routes: "hw_routes (hw s') = map (\<lambda>(r, nhs, hs). (r, hs)) (fib s')"
    and dist: "distinct (map fst (fib s'))"
    and refs: "mset (fib_handles (fib s')) + P' = mset (fib_handles (fib s)) + P"
    and look: "\<And>r nhs hs. (r, nhs, hs) \<in> set (fib s') \<Longrightarrow>
        map Some hs = map (\<lambda>k. fst (lookup k s)) nhs"
  shows "route_ok P' s'"
proof (rule route_okI)
  note d = route_okD[OF ok]
  show "table_ok s'" using d(1) table_ok_cong[OF same(1,2,4,5)] by simp
  show "unclaimed s' = []" using d(2) same(2) by (simp add: unclaimed_def)
  show "unclaimed_routes s' = []" using d(3) same(3) by (simp add: unclaimed_routes_def)
  show "hw_routes (hw s') = map (\<lambda>(r, nhs, hs). (r, hs)) (fib s')" by (rule routes)
  show "distinct (map fst (fib s'))" by (rule dist)
  show "e_refs e = count (mset (fib_handles (fib s')) + P') (e_handle e)"
    if "e \<in> set (nexthops s')" for e
    using d(6)[of e] that same(1) refs by simp
  show "set_mset (mset (fib_handles (fib s')) + P') \<subseteq> set (map e_handle (nexthops s'))"
    using d(7) same(1) refs by simp
  show "map Some hs = map (\<lambda>k. fst (lookup k s')) nhs" if "(r, nhs, hs) \<in> set (fib s')" for r nhs hs
    using look[OF that] lookup_nexthops_cong[OF same(1)] by simp
qed

lemma pending_live:
  assumes ok: "route_ok (mset hs + P) s"
  shows "list_all (\<lambda>h. h \<in> set (map fst (hw_objects (hw s)))) hs"
proof -
  have "set hs \<subseteq> set (map e_handle (nexthops s))"
    using route_okD(7)[OF ok] by auto
  then show ?thesis unfolding route_ok_handles_live[OF ok] by (auto simp: list_all_iff)
qed

lemma new_route_ok:
  assumes ok: "route_ok (mset hs) s1" and lg: "log_ok s1" and nr: "r \<notin> fst ` set (fib s1)"
    and look: "map Some hs = map (\<lambda>k. fst (lookup k s1)) nhs"
  shows "case programNewRoute r nhs hs s1 of
      (Inr u, s2) \<Rightarrow> route_ok {#} s2 \<and> log_ok s2
    | (Inl e, s2) \<Rightarrow> e = HardwareResourceExhausted \<and> route_ok (mset hs) s2 \<and> log_ok s2 \<and>
        restored s1 s2"
proof -
  note d = route_okD[OF ok]
  have nf: "find (\<lambda>c. rc_route c = r \<and> rc_state c = Unclaimed) (rcache s1) = None"
    using d(3) by (auto simp: unclaimed_routes_def find_None_iff2 filter_empty_conv)
  have nhw: "r \<notin> fst ` set (hw_routes (hw s1))"
    using nr unfolding d(4) by (auto simp: image_iff split: prod.splits)
  show ?thesis
  proof (cases "length (hw_routes (hw s1)) < hw_route_capacity (hw s1)")
    case True
    let ?b = "(hw s1)\<lparr>hw_routes := hw_routes (hw s1) @ [(r, hs)],
                     hw_calls := hw_calls (hw s1) @ [CreateRoute r hs True]\<rparr>"
    let ?s2 = "s1\<lparr>fib := fib s1 @ [(r, nhs, hs)], hw := ?b\<rparr>"
    have p: "programNewRoute r nhs hs s1 = (Inr (), ?s2)"
      using nf nhw True by (simp add: programNewRoute_def createRouteEntry_def)
    have "route_ok {#} ?s2"
    proof (rule route_ok_new_fib[OF ok])
      show "hw_routes (hw ?s2) = map (\<lambda>(r, nhs, hs). (r, hs)) (fib ?s2)" using d(4) by simp
      show "distinct (map fst (fib ?s2))" using d(5) nr by simp
      show "mset (fib_handles (fib ?s2)) + {#} = mset (fib_handles (fib s1)) + mset hs" by simp
      show "map Some hs' = map (\<lambda>k. fst (lookup k s1)) nhs'"
        if "(r', nhs', hs') \<in> set (fib ?s2)" for r' nhs' hs'
        using that d(8) look by auto
    qed simp_all
    moreover have "log_ok ?s2"
      using lg pending_live[of hs "{#}" s1] ok
      by (simp add: log_ok_def replay_snoc)
    ultimately show ?thesis unfolding p by simp
  next
    case False
    let ?s2 = "s1\<lparr>hw := (hw s1)\<lparr>hw_calls := hw_calls (hw s1) @ [CreateRoute r hs False]\<rparr>\<rparr>"
    have p: "programNewRoute r nhs hs s1 = (Inl HardwareResourceExhausted, ?s2)"
      using nf nhw False by (simp add: programNewRoute_def createRouteEntry_def)
    have "route_ok (mset hs) ?s2" using ok by simp
    moreover have "log_ok ?s2" using lg by (simp add: log_ok_def replay_snoc)
    moreover have "restored s1 ?s2" by (rule restoredI) simp_all
    ultimately show ?thesis unfolding p by simp
  qed
qed

lemma update_route_ok:
  assumes ok: "route_ok (mset hs) s1" and lg: "log_ok s1" and m: "(r, nhs0, hs0) \<in> set (fib s1)"
    and look: "map Some hs = map (\<lambda>k. fst (lookup k s1)) nhs"
  defines "b \<equiv> (hw s1)\<lparr>hw_routes := map (\<lambda>rt. if fst rt = r then (r, hs) else rt) (hw_routes (hw s1)),
                       hw_calls := hw_calls (hw s1) @ [UpdateRoute r hs True]\<rparr>"
  defines "s2 \<equiv> s1\<lparr>fib := map (\<lambda>f. if fst f = r then (r, nhs, hs) else f) (fib s1), hw := b\<rparr>"
  shows "updateRouteEntry r hs (hw s1) = (Inr (), b) \<and> route_ok (mset hs0) s2 \<and> log_ok s2"
proof -
  note d = route_okD[OF ok]
  have inhw: "r \<in> fst ` set (hw_routes (hw s1))"
    unfolding d(4) using m by (force simp: image_iff)
  have u: "updateRouteEntry r hs (hw s1) = (Inr (), b)"
    using inhw by (simp add: updateRouteEntry_def b_def)
  have "route_ok (mset hs0) s2"
  proof (rule route_ok_new_fib[OF ok])
    show "hw_routes (hw s2) = map (\<lambda>(r, nhs, hs). (r, hs)) (fib s2)"
      unfolding s2_def b_def d(4) by (auto simp: split_beta)
    have "map fst (fib s2) = map fst (fib s1)"
      by (auto simp: s2_def)
    then show "distinct (map fst (fib s2))" using d(5) by simp
    show "mset (fib_handles (fib s2)) + mset hs0 = mset (fib_handles (fib s1)) + mset hs"
      using fib_handles_update[OF d(5) m] by (simp add: s2_def)
    show "map Some hs' = map (\<lambda>k. fst (lookup k s1)) nhs'"
      if "(r', nhs', hs') \<in> set (fib s2)" for r' nhs' hs'
      using that d(8) look by (auto simp: s2_def split: if_splits)
  qed (simp_all add: s2_def b_def)
  moreover have "log_ok s2"
    using lg pending_live[of hs "{#}" s1] ok
    by (simp add: log_ok_def replay_snoc s2_def b_def)
  ultimately show ?thesis using u by simp
qed

lemma remove_route_ok:
  assumes ok: "route_ok {#} s" and lg: "log_ok s" and m: "(r, nhs, hs) \<in> set (fib s)"
  defines "b \<equiv> (hw s)\<lparr>hw_routes := filter (\<lambda>rt. fst rt \<noteq> r) (hw_routes (hw s)),
                       hw_calls := hw_calls (hw s) @ [DestroyRoute r True]\<rparr>"
  defines "s1 \<equiv> s\<lparr>fib := filter (\<lambda>f. fst f \<noteq> r) (fib s), hw := b\<rparr>"
  shows "destroyRouteEntry r (hw s) = (Inr (), b) \<and> route_ok (mset hs) s1 \<and> log_ok s1"
proof -
  note d = route_okD[OF ok]
  have inhw: "r \<in> fst ` set (hw_routes (hw s))"
    unfolding d(4) using m by (force simp: image_iff)
  have u: "destroyRouteEntry r (hw s) = (Inr (), b)"
    using inhw by (simp add: destroyRouteEntry_def b_def)
  have "route_ok (mset hs) s1"
  proof (rule route_ok_new_fib[OF ok])
    show "hw_routes (hw s1) = map (\<lambda>(r, nhs, hs). (r, hs)) (fib s1)"
      unfolding s1_def b_def d(4) by (auto simp: filter_map comp_def split_beta)
    show "distinct (map fst (fib s1))" using d(5) by (simp add: s1_def distinct_map_filter)
    show "mset (fib_handles (fib s1)) + mset hs = mset (fib_handles (fib s)) + {#}"
      using fib_handles_remove[OF d(5) m] by (simp add: s1_def)
    show "map Some hs' = map (\<lambda>k. fst (lookup k s)) nhs'"
      if "(r', nhs', hs') \<in> set (fib s1)" for r' nhs' hs'
      using that d(8) by (auto simp: s1_def)
  qed (simp_all add: s1_def b_def)
  moreover have "log_ok s1"
    using lg by (simp add: log_ok_def replay_snoc s1_def b_def)
  ultimately show ?thesis using u by simp
qed

lemma step_programRoute:
  assumes ok: "route_ok {#} s" and lg: "log_ok s"
  shows "case programRoute r nhs s of
      (Inr u, s1) \<Rightarrow> route_ok {#} s1 \<and> log_ok s1
    | (Inl e, s1) \<Rightarrow> e = RouteProgrammingFailed r HardwareResourceExhausted \<and>
        route_ok {#} s1 \<and> log_ok s1 \<and> restored s s1"
proof -
  note acq = step_acquire[OF ok lg, of nhs]
  show ?thesis
  proof (cases "acquire nhs s")
    case (Pair res s1)
    note A = Pair
    show ?thesis
    proof (cases res)
      case (Inl e)
      then have a: "e = HardwareResourceExhausted" "route_ok {#} s1" "log_ok s1" "restored s s1"
        using acq A by simp_all
      show ?thesis
      proof (cases "find (\<lambda>f. fst f = r) (fib s)")
        case None
        then show ?thesis using A Inl a by (simp add: programRoute_def)
      next
        case (Some x)
        obtain r' nhs0 hs0 where x: "x = (r', nhs0, hs0)" by (cases x) auto
        show ?thesis using Some x A Inl a ok lg by (simp add: programRoute_def)
      qed
    next
      case (Inr hs)
      then have a: "route_ok (mset hs) s1" "log_ok s1" "keeps s s1"
        "map Some hs = map (\<lambda>k. fst (lookup k s1)) nhs"
        and undo: "\<forall>s1'. restored s1 s1' \<longrightarrow>
            (\<exists>s2. releaseAll (rev hs) s1' = (Inr (), s2) \<and> restored s s2)"
        using acq A by simp_all
      have fibeq: "fib s1 = fib s" using a(3) by (simp add: keeps_def)
      show ?thesis
      proof (cases "find (\<lambda>f. fst f = r) (fib s)")
        case None
        then have nr: "r \<notin> fst ` set (fib s1)" unfolding fibeq by (rule find_fst_None)
        note nw = new_route_ok[OF a(1,2) nr a(4)]
        show ?thesis
        proof (cases "programNewRoute r nhs hs s1")
          case (Pair res2 s2)
          note N = Pair
          show ?thesis
          proof (cases res2)
            case (Inr u)
            then show ?thesis using None A \<open>res = Inr hs\<close> N nw by (simp add: programRoute_def)
          next
            case (Inl e)
            then have b: "e = HardwareResourceExhausted" "route_ok (mset hs) s2" "log_ok s2"
              "restored s1 s2"
              using nw N by simp_all
            from undo b(4) obtain s3 where s3: "releaseAll (rev hs) s2 = (Inr (), s3)" "restored s s3"
              by blast
            have "route_ok (mset (rev hs) + {#}) s2" using b(2) by simp
            from route_ok_releaseAll[OF this b(3)] s3(1) have "route_ok {#} s3" "log_ok s3"
              by auto
            then show ?thesis
              using None A \<open>res = Inr hs\<close> N Inl b(1) s3 by (simp add: programRoute_def)
          qed
        qed
      next
        case (Some x)
        obtain r' nhs0 hs0 where x: "x = (r', nhs0, hs0)" by (cases x) auto
        have m: "r' = r" "(r, nhs0, hs0) \<in> set (fib s1)"
          using find_fst_Some[of r "fib s" r' nhs0 hs0] Some x fibeq by simp_all
        show ?thesis
        proof (cases "nhs0 = nhs")
          case True
          then show ?thesis using Some x ok lg by (simp add: programRoute_def)
        next
          case False
          note up = update_route_ok[OF a(1,2) m(2) a(4)]
          let ?s2 = "s1\<lparr>fib := map (\<lambda>f. if fst f = r then (r, nhs, hs) else f) (fib s1),
              hw := (hw s1)\<lparr>hw_routes := map (\<lambda>rt. if fst rt = r then (r, hs) else rt) (hw_routes (hw s1)),
                       hw_calls := hw_calls (hw s1) @ [UpdateRoute r hs True]\<rparr>\<rparr>"
          have "route_ok (mset hs0 + {#}) ?s2" "log_ok ?s2" using up by simp_all
          from route_ok_releaseAll[OF this] obtain s3 where
            s3: "releaseAll hs0 ?s2 = (Inr (), s3)" "route_ok {#} s3" "log_ok s3"
            by blast
          have "programRoute r nhs s = (Inr (), s3)"
            using Some x False A \<open>res = Inr hs\<close> up s3(1) by (simp add: programRoute_def)
          then show ?thesis using s3 by simp
        qed
      qed
    qed
  qed
qed

lemma step_removeRoute:
  assumes ok: "route_ok {#} s" and lg: "log_ok s"
  shows "\<exists>s1. removeRoute r s = (Inr (), s1) \<and> route_ok {#} s1 \<and> log_ok s1"
proof (cases "find (\<lambda>f. fst f = r) (fib s)")
  case None
  then show ?thesis using ok lg by (simp add: removeRoute_def)
next
  case (Some x)
  obtain r' nhs hs where x: "x = (r', nhs, hs)" by (cases x) auto
  have m: "(r, nhs, hs) \<in> set (fib s)"
    using find_fst_Some[of r "fib s" r' nhs hs] Some x by simp
  note rm = remove_route_ok[OF ok lg m]
  let ?s1 = "s\<lparr>fib := filter (\<lambda>f. fst f \<noteq> r) (fib s),
      hw := (hw s)\<lparr>hw_routes := filter (\<lambda>rt. fst rt \<noteq> r) (hw_routes (hw s)),
                       hw_calls := hw_calls (hw s) @ [DestroyRoute r True]\<rparr>\<rparr>"
  have "route_ok (mset hs + {#}) ?s1" "log_ok ?s1" using rm by simp_all
  from route_ok_releaseAll[OF this] obtain s2 where
    s2: "releaseAll hs ?s1 = (Inr (), s2)" "route_ok {#} s2" "log_ok s2"
    by blast
  have "removeRoute r s = (Inr (), s2)"
    using Some x rm s2(1) by (simp add: removeRoute_def)
  then show ?thesis using s2 by simp
qed

lemma step_change:
  assumes ok: "route_ok {#} s" and lg: "log_ok s"
  shows "case applyChange c s of
      (Inr u, s1) \<Rightarrow> route_ok {#} s1 \<and> log_ok s1
    | (Inl e, s1) \<Rightarrow> (\<exists>r. e = RouteProgrammingFailed r HardwareResourceExhausted) \<and>
        route_ok {#} s1 \<and> log_ok s1 \<and> restored s s1"
proof (cases c)
  case (RouteAdded r nhs)
  show ?thesis using step_programRoute[OF ok lg, of r nhs] RouteAdded
    by (auto split: prod.splits sum.splits)
next
  case (RouteRemoved r)
  show ?thesis using step_removeRoute[OF ok lg, of r] RouteRemoved by auto
qed

lemma applyDelta_ok:
  "route_ok {#} s \<Longrightarrow> log_ok s \<Longrightarrow>
   route_ok {#} (snd (applyDelta cs s)) \<and> log_ok (snd (applyDelta cs s))"
proof (induction cs arbitrary: s)
  case Nil
  then show ?case by simp
next
  case (Cons c cs)
  note st = step_change[OF Cons.prems, of c]
  show ?case
  proof (cases "applyChange c s")
    case (Pair res s1)
    show ?thesis
    proof (cases res)
      case (Inr u)
      then have "route_ok {#} s1" "log_ok s1" using st Pair by simp_all
      from Cons.IH[OF this] show ?thesis using Pair Inr by simp
    next
      case (Inl e)
      then obtain r where e: "e = RouteProgrammingFailed r HardwareResourceExhausted"
        and "route_ok {#} s1" "log_ok s1"
        using st Pair by auto
      from Cons.IH[OF this(2,3)] show ?thesis using Pair Inl e
        by (auto split: prod.splits)
    qed
  qed
qed

lemma applyDeltas_ok:
  "route_ok {#} s \<Longrightarrow> log_ok s \<Longrightarrow>
   route_ok {#} (applyDeltas css s) \<and> log_ok (applyDeltas css s)"
  by (induction css arbitrary: s) (simp_all add: applyDelta_ok)

lemma cold_start_ok: "route_ok {#} (cold_start cap rcap)" "log_ok (cold_start cap rcap)"
  by (simp_all add: route_ok_def table_ok_def cold_start_def table_pairs_def cache_pairs_def
      unclaimed_def unclaimed_routes_def log_ok_def)

lemma reachable_ok:
  "route_ok {#} (applyDeltas css (cold_start cap rcap))"
  "log_ok (applyDeltas css (cold_start cap rcap))"
  using applyDeltas_ok[OF cold_start_ok] by blast+

lemma table_ok_releaseAll: "table_ok s \<Longrightarrow> table_ok (snd (releaseAll hs s))"
proof (induction hs arbitrary: s)
  case Nil
  then show ?case by simp
next
  case (Cons h hs)
  have "table_ok (snd (release h s))" using Cons.prems by (rule release_ok)
  then show ?case using Cons.IH[of "snd (release h s)"] Cons.prems
    by (cases "release h s") (auto split: sum.splits)
qed

lemma table_ok_acquire: "table_ok s \<Longrightarrow> table_ok (snd (acquire ks s))"
proof (induction ks arbitrary: s)
  case Nil
  then show ?case by simp
next
  case (Cons k ks)
  have 1: "table_ok (snd (referenceOrAdopt k s))" using Cons.prems by (rule referenceOrAdopt_ok)
  show ?case
  proof (cases "referenceOrAdopt k s")
    case (Pair res s1)
    then have s1: "table_ok s1" using 1 by simp
    show ?thesis
    proof (cases res)
      case (Inl e)
      then show ?thesis using Pair s1 by simp
    next
      case (Inr h)
      have 2: "table_ok (snd (acquire ks s1))" using s1 by (rule Cons.IH)
      show ?thesis
      proof (cases "acquire ks s1")
        case (Pair res2 s2)
        then have "table_ok s2" using 2 by simp
        then have "table_ok (snd (release h s2))" by (rule release_ok)
        then show ?thesis
          using \<open>referenceOrAdopt k s = (res, s1)\<close> Inr Pair \<open>table_ok s2\<close>
          by (auto split: sum.splits)
      qed
    qed
  qed
qed

lemma table_ok_routes_only:
  "table_ok s \<Longrightarrow> nexthops s' = nexthops s \<Longrightarrow> cache s' = cache s \<Longrightarrow>
   hw_objects (hw s') = hw_objects (hw s) \<Longrightarrow> hw_next (hw s') = hw_next (hw s) \<Longrightarrow> table_ok s'"
  using table_ok_cong by blast

lemma programNewRoute_table:
  "nexthops (snd (programNewRoute r nhs hs s)) = nexthops s \<and>
   cache (snd (programNewRoute r nhs hs s)) = cache s \<and>
   hw_objects (hw (snd (programNewRoute r nhs hs s))) = hw_objects (hw s) \<and>
   hw_next (hw (snd (programNewRoute r nhs hs s))) = hw_next (hw s)"
  by (auto simp: programNewRoute_def createRouteEntry_def updateRouteEntry_def Let_def
      split: option.splits)

lemma table_ok_programNewRoute:
  "table_ok s \<Longrightarrow> table_ok (snd (programNewRoute r nhs hs s))"
  using programNewRoute_table[of r nhs hs s] by (auto intro: table_ok_routes_only)

lemma table_ok_programRoute:
  assumes "table_ok s"
  shows "table_ok (snd (programRoute r nhs s))"
proof -
  have a: "table_ok (snd (acquire nhs s))" using assms by (rule table_ok_acquire)
  obtain res s1 where A: "acquire nhs s = (res, s1)" by (cases "acquire nhs s")
  then have s1: "table_ok s1" using a by simp
  show ?thesis
  proof (cases res)
    case (Inl e)
    then show ?thesis using A s1 assms
      by (auto simp: programRoute_def split: option.splits)
  next
    case (Inr hs)
    have n: "table_ok (snd (releaseAll (rev hs) (snd (programNewRoute r nhs hs s1))))"
      "table_ok (snd (programNewRoute r nhs hs s1))"
      using s1 by (simp_all add: table_ok_programNewRoute table_ok_releaseAll)
    have u: "table_ok (s1\<lparr>hw := snd (updateRouteEntry r hs (hw s1))\<rparr>)"
      by (rule table_ok_routes_only[OF s1]) (simp_all add: updateRouteEntry_def)
    have u2: "table_ok (s1\<lparr>fib := f, hw := snd (updateRouteEntry r hs (hw s1))\<rparr>)" for f
      by (rule table_ok_routes_only[OF s1]) (simp_all add: updateRouteEntry_def)
    have v: "table_ok (snd (releaseAll (rev hs) (s1\<lparr>hw := snd (updateRouteEntry r hs (hw s1))\<rparr>)))"
      using u by (rule table_ok_releaseAll)
    have w: "table_ok (snd (releaseAll hs0 (s1\<lparr>fib := f, hw := snd (updateRouteEntry r hs (hw s1))\<rparr>)))"
      for f hs0
      using u2 by (rule table_ok_releaseAll)
    show ?thesis
    proof (cases "find (\<lambda>f. fst f = r) (fib s)")
      case None
      then show ?thesis using A Inr n
        by (cases "programNewRoute r nhs hs s1") (auto simp: programRoute_def split: sum.splits)
    next
      case (Some x)
      obtain r' nhs0 hs0 where x: "x = (r', nhs0, hs0)" by (cases x) auto
      show ?thesis
      proof (cases "updateRouteEntry r hs (hw s1)")
        case (Pair ur b)
        then show ?thesis using Some x A Inr assms v w[of hs0]
          by (cases ur) (auto simp: programRoute_def)
      qed
    qed
  qed
qed

lemma table_ok_removeRoute:
  assumes "table_ok s"
  shows "table_ok (snd (removeRoute r s))"
proof (cases "find (\<lambda>f. fst f = r) (fib s)")
  case None
  then show ?thesis using assms by (simp add: removeRoute_def)
next
  case (Some x)
  obtain r' nhs hs where x: "x = (r', nhs, hs)" by (cases x) auto
  have u: "table_ok (s\<lparr>hw := snd (destroyRouteEntry r (hw s))\<rparr>)"
    by (rule table_ok_routes_only[OF assms]) (simp_all add: destroyRouteEntry_def)
  have u2: "table_ok (s\<lparr>fib := f, hw := snd (destroyRouteEntry r (hw s))\<rparr>)" for f
    by (rule table_ok_routes_only[OF assms]) (simp_all add: destroyRouteEntry_def)
  have w: "table_ok (snd (releaseAll hs (s\<lparr>fib := f, hw := snd (destroyRouteEntry r (hw s))\<rparr>)))" for f
    using u2 by (rule table_ok_releaseAll)
  show ?thesis
  proof (cases "destroyRouteEntry r (hw s)")
    case (Pair dr b)
    then show ?thesis using Some x u w
      by (cases dr) (auto simp: removeRoute_def)
  qed
qed

lemma table_ok_applyChange: "table_ok s \<Longrightarrow> table_ok (snd (applyChange c s))"
  by (cases c) (simp_all add: table_ok_programRoute table_ok_removeRoute)

lemma table_ok_applyDelta: "table_ok s \<Longrightarrow> table_ok (snd (applyDelta cs s))"
proof (induction cs arbitrary: s)
  case Nil
  then show ?case by simp
next
  case (Cons c cs)
  have 1: "table_ok (snd (applyChange c s))" using Cons.prems by (rule table_ok_applyChange)
  obtain res s1 where A: "applyChange c s = (res, s1)" by (cases "applyChange c s")
  then have s1: "table_ok s1" using 1 by simp
  have 2: "table_ok (snd (applyDelta cs s1))" using s1 by (rule Cons.IH)
  show ?case
  proof (cases res)
    case (Inr u)
    then show ?thesis using A 2 by simp
  next
    case (Inl e)
    then show ?thesis using A 2 s1
      by (cases e) (auto split: prod.splits)
  qed
qed

lemma destroy_routes:
  "hw_routes (snd (destroyRouteEntry r b)) = filter (\<lambda>rt. fst rt \<noteq> r) (hw_routes b)"
proof (cases "r \<in> fst ` set (hw_routes b)")
  case True
  then show ?thesis by (simp add: destroyRouteEntry_def)
next
  case False
  then have "filter (\<lambda>rt. fst rt \<noteq> r) (hw_routes b) = hw_routes b"
    by (auto simp: filter_id_conv)
  then show ?thesis using False by (simp add: destroyRouteEntry_def)
qed

lemma destroy_route_other [simp]:
  "hw_objects (snd (destroyRouteEntry r b)) = hw_objects b"
  "hw_next (snd (destroyRouteEntry r b)) = hw_next b"
  by (simp_all add: destroyRouteEntry_def)

lemma unclaimed_routes_after_purge:
  "filter (\<lambda>c. rc_state c = Unclaimed)
     (map (\<lambda>c'. if rc_route c' = r \<and> rc_state c' = Unclaimed
                then c'\<lparr>rc_state := Purged\<rparr> else c') cs) =
   filter (\<lambda>c'. rc_route c' \<noteq> r) (filter (\<lambda>c. rc_state c = Unclaimed) cs)"
  by (induction cs) simp_all

lemma unclaimed_after_purge:
  "filter (\<lambda>c. c_state c = Unclaimed)
     (map (\<lambda>c'. if c_handle c' = h \<and> c_state c' = Unclaimed
                then c'\<lparr>c_state := Purged\<rparr> else c') cs) =
   filter (\<lambda>c'. c_handle c' \<noteq> h) (filter (\<lambda>c. c_state c = Unclaimed) cs)"
  by (induction cs) simp_all

lemma notin_imageD: "h \<notin> f ` A \<Longrightarrow> x \<in> A \<Longrightarrow> f x \<noteq> h"
  by auto

lemma purgeRoutes_effect:
  "nexthops (purgeRoutes cs s) = nexthops s \<and> cache (purgeRoutes cs s) = cache s \<and>
   fib (purgeRoutes cs s) = fib s \<and>
   hw_objects (hw (purgeRoutes cs s)) = hw_objects (hw s) \<and>
   hw_next (hw (purgeRoutes cs s)) = hw_next (hw s) \<and>
   hw_routes (hw (purgeRoutes cs s)) =
     filter (\<lambda>rt. fst rt \<notin> rc_route ` set cs) (hw_routes (hw s)) \<and>
   unclaimed_routes (purgeRoutes cs s) =
     filter (\<lambda>c. rc_route c \<notin> rc_route ` set cs) (unclaimed_routes s)"
proof (induction cs arbitrary: s)
  case Nil
  then show ?case by simp
next
  case (Cons c cs)
  let ?s1 = "s\<lparr>rcache := map (\<lambda>c'. if rc_route c' = rc_route c \<and> rc_state c' = Unclaimed
                               then c'\<lparr>rc_state := Purged\<rparr> else c') (rcache s),
          hw := snd (destroyRouteEntry (rc_route c) (hw s))\<rparr>"
  have u: "unclaimed_routes ?s1 = filter (\<lambda>c'. rc_route c' \<noteq> rc_route c) (unclaimed_routes s)"
    by (simp add: unclaimed_routes_def unclaimed_routes_after_purge)
  show ?case
    using Cons.IH[of ?s1] u
    by (simp add: destroy_routes)
qed

lemma purge_register_release:
  assumes t: "table_ok s" and c: "c \<in> set (unclaimed s)"
  defines "mark \<equiv> \<lambda>c'. if c_handle c' = c_handle c \<and> c_state c' = Unclaimed
                          then c'\<lparr>c_state := Purged\<rparr> else c'"
  shows "release (c_handle c)
           (s\<lparr>cache := map mark (cache s),
              nexthops := nexthops s @ [\<lparr>e_key = c_key c, e_handle = c_handle c, e_refs = 1\<rparr>]\<rparr>) =
         (Inr (),
          s\<lparr>cache := map mark (cache s),
            hw := (hw s)\<lparr>hw_objects := filter (\<lambda>ob. fst ob \<noteq> c_handle c) (hw_objects (hw s)),
                        hw_calls := hw_calls (hw s) @ [DestroyObject (c_handle c) True]\<rparr>\<rparr>)"
proof -
  let ?h = "c_handle c"
  have nt: "?h \<notin> set (map e_handle (nexthops s))"
    using t c by (simp add: table_ok_def list_all_iff)
  then have fn: "find (\<lambda>e'. e_handle e' = ?h) (nexthops s) = None"
    by (auto simp: find_None_iff2 dest: notin_imageD)
  have "(c_handle c, c_key c) \<in> set (cache_pairs s)" using c by (simp add: cache_pairs_def)
  moreover have "set (hw_objects (hw s)) = set (table_pairs s) \<union> set (cache_pairs s)"
    using t by (simp add: table_ok_def)
  ultimately have live: "?h \<in> fst ` set (hw_objects (hw s))" by force
  have fl: "filter (\<lambda>e'. e_handle e' \<noteq> ?h) (nexthops s) = nexthops s"
    using nt by (auto simp: filter_id_conv dest: notin_imageD)
  show ?thesis
    using fn live fl
    by (simp add: release_def find_append destroyHardwareObject_def)
qed

lemma table_ok_purgeRoutes: "table_ok s \<Longrightarrow> table_ok (purgeRoutes cs s)"
  using purgeRoutes_effect[of cs s] by (auto intro: table_ok_routes_only)

lemma purge_step_ok:
  assumes t: "table_ok s" and c: "c \<in> set (unclaimed s)"
  defines "s1 \<equiv> s\<lparr>cache := map (\<lambda>c'. if c_handle c' = c_handle c \<and> c_state c' = Unclaimed
                          then c'\<lparr>c_state := Purged\<rparr> else c') (cache s),
            hw := (hw s)\<lparr>hw_objects := filter (\<lambda>ob. fst ob \<noteq> c_handle c) (hw_objects (hw s)),
                        hw_calls := hw_calls (hw s) @ [DestroyObject (c_handle c) True]\<rparr>\<rparr>"
  shows "table_ok s1 \<and> unclaimed s1 = filter (\<lambda>c'. c_handle c' \<noteq> c_handle c) (unclaimed s)"
proof -
  let ?h = "c_handle c"
  have un: "unclaimed s1 = filter (\<lambda>c'. c_handle c' \<noteq> ?h) (unclaimed s)"
    by (simp add: s1_def unclaimed_def unclaimed_after_purge)
  have hwset: "set (hw_objects (hw s)) = set (table_pairs s) \<union> set (cache_pairs s)"
    and nt: "\<forall>c'\<in>set (unclaimed s). c_handle c' \<notin> set (map e_handle (nexthops s))"
    using t by (simp_all add: table_ok_def list_all_iff)
  have tp: "table_pairs s1 = table_pairs s" by (simp add: s1_def table_pairs_def)
  have tph: "\<forall>p\<in>set (table_pairs s). fst p \<noteq> ?h"
    using nt c by (auto simp: table_pairs_def dest: notin_imageD)
  have cp: "cache_pairs s1 = filter (\<lambda>ob. fst ob \<noteq> ?h) (cache_pairs s)"
    unfolding cache_pairs_def un by (simp add: filter_map comp_def)
  have 1: "set (hw_objects (hw s1)) = set (table_pairs s1) \<union> set (cache_pairs s1)"
    unfolding tp cp using hwset tph by (auto simp: s1_def)
  have 2: "distinct (map e_key (nexthops s1))" "list_all (\<lambda>e. 0 < e_refs e) (nexthops s1)"
    using t by (simp_all add: table_ok_def s1_def)
  have 4: "list_all (\<lambda>c'. c_handle c' \<notin> set (map e_handle (nexthops s1))) (unclaimed s1)"
    unfolding un using nt by (simp add: list_all_iff s1_def)
  have 5: "distinct (map snd (hw_objects (hw s1)))" "distinct (map fst (hw_objects (hw s1)))"
      "list_all (\<lambda>ob. fst ob < hw_next (hw s1)) (hw_objects (hw s1))"
    using t by (simp_all add: table_ok_def s1_def distinct_map_filter list_all_iff)
  have 6: "distinct (map c_handle (unclaimed s1))"
    unfolding un using t by (simp add: table_ok_def distinct_map_filter)
  have "table_ok s1"
    unfolding table_ok_def by (intro conjI 1 2 4 5 6)
  then show ?thesis using un by simp
qed

lemma purgeNextHops_effect:
  "table_ok s \<Longrightarrow> set cs \<subseteq> set (unclaimed s) \<Longrightarrow> distinct (map c_handle cs) \<Longrightarrow>
   fst (purgeNextHops cs s) = Inr () \<and>
   table_ok (snd (purgeNextHops cs s)) \<and>
   nexthops (snd (purgeNextHops cs s)) = nexthops s \<and>
   fib (snd (purgeNextHops cs s)) = fib s \<and>
   rcache (snd (purgeNextHops cs s)) = rcache s \<and>
   hw_routes (hw (snd (purgeNextHops cs s))) = hw_routes (hw s) \<and>
   hw_objects (hw (snd (purgeNextHops cs s))) =
     filter (\<lambda>ob. fst ob \<notin> c_handle ` set cs) (hw_objects (hw s)) \<and>
   hw_calls (hw (snd (purgeNextHops cs s))) =
     hw_calls (hw s) @ map (\<lambda>c. DestroyObject (c_handle c) True) cs \<and>
   unclaimed (snd (purgeNextHops cs s)) =
     filter (\<lambda>c'. c_handle c' \<notin> c_handle ` set cs) (unclaimed s)"
proof (induction cs arbitrary: s)
  case Nil
  then show ?case by simp
next
  case (Cons c cs)
  let ?s1 = "s\<lparr>cache := map (\<lambda>c'. if c_handle c' = c_handle c \<and> c_state c' = Unclaimed
                          then c'\<lparr>c_state := Purged\<rparr> else c') (cache s),
            hw := (hw s)\<lparr>hw_objects := filter (\<lambda>ob. fst ob \<noteq> c_handle c) (hw_objects (hw s)),
                        hw_calls := hw_calls (hw s) @ [DestroyObject (c_handle c) True]\<rparr>\<rparr>"
  have c: "c \<in> set (unclaimed s)" using Cons.prems(2) by simp
  have rel: "purgeNextHops (c # cs) s = purgeNextHops cs ?s1"
    using purge_register_release[OF Cons.prems(1) c] by simp
  have s1: "table_ok ?s1" "unclaimed ?s1 = filter (\<lambda>c'. c_handle c' \<noteq> c_handle c) (unclaimed s)"
    using purge_step_ok[OF Cons.prems(1) c] by simp_all
  have sub: "set cs \<subseteq> set (unclaimed ?s1)"
    unfolding s1(2) using Cons.prems(2,3) by (auto dest: notin_imageD)
  have d: "distinct (map c_handle cs)" using Cons.prems(3) by simp
  note ih = Cons.IH[OF s1(1) sub d]
  show ?case unfolding rel using ih s1(2)
    by (simp add: conj_commute)
qed

lemma table_ok_purgeUnclaimed:
  assumes "table_ok s"
  shows "table_ok (snd (purgeUnclaimed s))"
proof -
  let ?s1 = "purgeRoutes (unclaimed_routes s) s"
  have t1: "table_ok ?s1" using assms by (rule table_ok_purgeRoutes)
  then have "distinct (map c_handle (unclaimed ?s1))" by (simp add: table_ok_def)
  from purgeNextHops_effect[OF t1 subset_refl this] show ?thesis
    by (simp add: purgeUnclaimed_def Let_def)
qed

lemma table_ok_step: "table_ok s \<Longrightarrow> table_ok (engine_step op s)"
  by (cases op)
    (simp_all add: referenceOrAdopt_ok release_ok lookup_def table_ok_applyDelta
      table_ok_purgeUnclaimed)

lemma table_ok_run: "table_ok s \<Longrightarrow> table_ok (run ops s)"
  by (induction ops arbitrary: s) (simp_all add: table_ok_step)

lemma cache_of_objects:
  "map (\<lambda>c. (c_handle c, c_key c))
     (filter (\<lambda>c. c_state c = Unclaimed)
       (map (\<lambda>(h, k). \<lparr>c_key = k, c_handle = h, c_state = Unclaimed\<rparr>) obs)) = obs"
  by (induction obs) auto

lemma cache_of_objects_handles:
  "map c_handle
     (filter (\<lambda>c. c_state c = Unclaimed)
       (map (\<lambda>(h, k). \<lparr>c_key = k, c_handle = h, c_state = Unclaimed\<rparr>) obs)) = map fst obs"
  by (induction obs) auto

lemma table_ok_warm_start: "backend_ok b \<Longrightarrow> table_ok (warm_start b)"
  by (simp add: backend_ok_def table_ok_def warm_start_def table_pairs_def cache_pairs_def
      unclaimed_def cache_of_objects cache_of_objects_handles list_all_iff)

lemma table_ok_cold_start: "table_ok (cold_start cap rcap)"
  using cold_start_ok(1) by (rule route_ok_table)

lemma count_mset_list: "count (mset xs) x = count_list xs x"
  by (induction xs) auto

text \<open>
  C1. For every key \<open>K\<close> and every sequence of table and engine operations (references,
  releases, lookups, state deltas, purges), from any state that satisfies the table
  invariant, from a cold start and from a warm start on a well-formed hardware state, the
  hardware holds at most one live object for \<open>K\<close>. After any sequence of state deltas from a
  cold start, the reference count of every table entry is the number of references the
  programmed routes hold on its handle, and routes with the same next-hop keys hold the same
  handles.
\<close>

theorem one_object_per_key:
  "(table_ok s \<longrightarrow> length (filter (\<lambda>ob. snd ob = K) (hw_objects (hw (run ops s)))) \<le> 1) \<and>
   length (filter (\<lambda>ob. snd ob = K) (hw_objects (hw (run ops (cold_start cap rcap))))) \<le> 1 \<and>
   (backend_ok b \<longrightarrow>
      length (filter (\<lambda>ob. snd ob = K) (hw_objects (hw (run ops (warm_start b))))) \<le> 1) \<and>
   list_all (\<lambda>e. e_refs e =
        count_list (fib_handles (fib (applyDeltas css (cold_start cap rcap)))) (e_handle e))
     (nexthops (applyDeltas css (cold_start cap rcap))) \<and>
   (\<forall>r1 r2 nhs hs1 hs2.
      (r1, nhs, hs1) \<in> set (fib (applyDeltas css (cold_start cap rcap))) \<and>
      (r2, nhs, hs2) \<in> set (fib (applyDeltas css (cold_start cap rcap))) \<longrightarrow> hs1 = hs2)"
proof (intro conjI impI allI)
  assume "table_ok s"
  then have "table_ok (run ops s)" by (rule table_ok_run)
  then show "length (filter (\<lambda>ob. snd ob = K) (hw_objects (hw (run ops s)))) \<le> 1"
    by (rule table_ok_one_object)
next
  have "table_ok (run ops (cold_start cap rcap))"
    using table_ok_cold_start by (rule table_ok_run)
  then show "length (filter (\<lambda>ob. snd ob = K) (hw_objects (hw (run ops (cold_start cap rcap))))) \<le> 1"
    by (rule table_ok_one_object)
next
  assume "backend_ok b"
  then have "table_ok (run ops (warm_start b))"
    by (intro table_ok_run table_ok_warm_start)
  then show "length (filter (\<lambda>ob. snd ob = K) (hw_objects (hw (run ops (warm_start b))))) \<le> 1"
    by (rule table_ok_one_object)
next
  let ?s = "applyDeltas css (cold_start cap rcap)"
  note d = route_okD[OF reachable_ok(1)[of css cap rcap]]
  show "list_all (\<lambda>e. e_refs e = count_list (fib_handles (fib ?s)) (e_handle e)) (nexthops ?s)"
    using d(6) by (simp add: list_all_iff count_mset_list)
next
  let ?s = "applyDeltas css (cold_start cap rcap)"
  note d = route_okD[OF reachable_ok(1)[of css cap rcap]]
  fix r1 r2 nhs hs1 hs2
  assume "(r1, nhs, hs1) \<in> set (fib ?s) \<and> (r2, nhs, hs2) \<in> set (fib ?s)"
  then have "map Some hs1 = map Some hs2" using d(8)[of r1 nhs hs1] d(8)[of r2 nhs hs2] by simp
  then show "hs1 = hs2" by (simp add: inj_map_eq_map)
qed



lemmas engine_defs =
  programRoute_def programNewRoute_def removeRoute_def referenceOrAdopt_def referenceOrCreate_def
  release_def lookup_def createHardwareObject_def destroyHardwareObject_def createRouteEntry_def
  updateRouteEntry_def destroyRouteEntry_def cold_start_def

theorem one_object_per_key_witness:
  "length (filter (\<lambda>ob. snd ob = 10)
      (hw_objects (hw (run [OpReference 10, OpReference 11, OpRelease 0, OpReference 10] table2)))) \<le> 1 \<and>
   length (filter (\<lambda>ob. snd ob = 10)
      (hw_objects (hw (run [OpDelta [RouteAdded 100 [10], RouteAdded 101 [10]], OpPurge]
          (warm_start (hw table2)))))) \<le> 1 \<and>
   list_all (\<lambda>e. e_refs e =
        count_list (fib_handles (fib (applyDeltas [[RouteAdded 100 [10], RouteAdded 101 [10]]]
          (cold_start 2 2 :: (nat, nat) engine)))) (e_handle e))
     (nexthops (applyDeltas [[RouteAdded 100 [10], RouteAdded 101 [10]]]
          (cold_start 2 2 :: (nat, nat) engine))) \<and>
   fib (applyDeltas [[RouteAdded 100 [10], RouteAdded 101 [10]]] (cold_start 2 2 :: (nat, nat) engine)) =
     [(100, [10], [0]), (101, [10], [0])] \<and>
   nexthops (applyDeltas [[RouteAdded 100 [10], RouteAdded 101 [10]]] (cold_start 2 2 :: (nat, nat) engine)) =
     [\<lparr>e_key = 10, e_handle = 0, e_refs = 2\<rparr>]"
proof -
  have t: "table_ok table2"
    by (simp add: table_ok_def table2_def table_pairs_def cache_pairs_def unclaimed_def)
  have b: "backend_ok (hw table2)"
    by (simp add: backend_ok_def table2_def)
  have ev: "applyDeltas [[RouteAdded 100 [10], RouteAdded 101 [10]]] (cold_start 2 2 :: (nat, nat) engine) =
     \<lparr>nexthops = [\<lparr>e_key = 10, e_handle = 0, e_refs = 2\<rparr>],
      fib = [(100, [10], [0]), (101, [10], [0])], cache = [], rcache = [],
      hw = \<lparr>hw_objects = [(0, 10)], hw_routes = [(100, [0]), (101, [0])], hw_next = 1,
            hw_capacity = 2, hw_route_capacity = 2,
            hw_calls = [CreateObject 10 (Some 0), CreateRoute 100 [0] True,
                        CreateRoute 101 [0] True]\<rparr>\<rparr>"
    by (simp add: engine_defs)
  note th1 = one_object_per_key[of table2 10
        "[OpReference 10, OpReference 11, OpRelease 0, OpReference 10]" 2 2 "hw table2"
        "[[RouteAdded 100 [10], RouteAdded 101 [10]]]"]
  note th2 = one_object_per_key[of table2 10
        "[OpDelta [RouteAdded 100 [10], RouteAdded 101 [10]], OpPurge]" 2 2 "hw table2"
        "[[RouteAdded 100 [10], RouteAdded 101 [10]]]"]
  have c1: "length (filter (\<lambda>ob. snd ob = 10)
      (hw_objects (hw (run [OpReference 10, OpReference 11, OpRelease 0, OpReference 10] table2)))) \<le> 1"
    using th1 t by blast
  have c2: "length (filter (\<lambda>ob. snd ob = 10)
      (hw_objects (hw (run [OpDelta [RouteAdded 100 [10], RouteAdded 101 [10]], OpPurge]
          (warm_start (hw table2)))))) \<le> 1"
    using th2 b by blast
  have c3: "list_all (\<lambda>e. e_refs e =
        count_list (fib_handles (fib (applyDeltas [[RouteAdded 100 [10], RouteAdded 101 [10]]]
          (cold_start 2 2 :: (nat, nat) engine)))) (e_handle e))
     (nexthops (applyDeltas [[RouteAdded 100 [10], RouteAdded 101 [10]]]
          (cold_start 2 2 :: (nat, nat) engine)))"
    using th1 by blast
  have c4: "fib (applyDeltas [[RouteAdded 100 [10], RouteAdded 101 [10]]] (cold_start 2 2 :: (nat, nat) engine)) =
     [(100, [10], [0]), (101, [10], [0])]"
    unfolding ev by simp
  have c5: "nexthops (applyDeltas [[RouteAdded 100 [10], RouteAdded 101 [10]]] (cold_start 2 2 :: (nat, nat) engine)) =
     [\<lparr>e_key = 10, e_handle = 0, e_refs = 2\<rparr>]"
    unfolding ev by simp
  show ?thesis by (intro conjI c1 c2 c3 c4 c5)
qed

























end
